theory Spec2Isabelle
  imports Complex_Main "HOL-Library.Sublist" "HOL-Library.Char_ord" "HOL-Library.List_Lexorder"
begin

section \<open>JavaScript strings\<close>

text \<open>
  A JavaScript string is modelled as a \<open>string\<close> (a list of characters). The helpers
  below are the built-in string methods that the pipeline calls.
\<close>

text \<open>\<open>s.includes(t)\<close>: \<open>t\<close> occurs in \<open>s\<close> as a contiguous block.\<close>

fun str_includes :: "string \<Rightarrow> string \<Rightarrow> bool" where
  "str_includes [] t = (t = [])"
| "str_includes (c # cs) t = (prefix t (c # cs) \<or> str_includes cs t)"

text \<open>\<open>s.startsWith(t)\<close>.\<close>

definition startsWith :: "string \<Rightarrow> string \<Rightarrow> bool" where
  "startsWith s t = prefix t s"

text \<open>\<open>s.split(c)\<close> for a one-character separator: always at least one part.\<close>

fun split_on :: "char \<Rightarrow> string \<Rightarrow> string list" where
  "split_on c [] = [[]]"
| "split_on c (x # xs) =
     (if x = c then [] # split_on c xs
      else (case split_on c xs of
              [] \<Rightarrow> [[x]]
            | p # ps \<Rightarrow> (x # p) # ps))"

text \<open>\<open>parts.join(sep)\<close>.\<close>

fun join :: "string \<Rightarrow> string list \<Rightarrow> string" where
  "join sep [] = []"
| "join sep [p] = p"
| "join sep (p # q # ps) = p @ sep @ join sep (q # ps)"

section \<open>The dedup index: \<open>loadExistingHashes\<close>\<close>

text \<open>
  \<open>parts[0].replace(/^"|"$/g, '')\<close>: one double quote is removed at the start and one
  at the end of what is left.
\<close>

definition strip_quotes :: "string \<Rightarrow> string" where
  "strip_quotes s =
     (let s1 = (case s of [] \<Rightarrow> [] | c # cs \<Rightarrow> if c = CHR 0x22 then cs else s)
      in if s1 \<noteq> [] \<and> last s1 = CHR 0x22 then butlast s1 else s1)"

text \<open>
  The body of the \<open>line\<close> handler after the header has been skipped: the hash that one
  ledger line adds to the index, if any.
\<close>

definition line_hash :: "string \<Rightarrow> string option" where
  "line_hash line =
     (let parts = split_on CHR '','' line in
      if length parts > 0 \<and> hd parts \<noteq> [] then
        (let hash = strip_quotes (hd parts) in
         if startsWith hash ''0x'' then Some hash else None)
      else None)"

text \<open>
  The \<open>line\<close> events of the reader, in order, with the \<open>isFirstLine\<close> flag and the set
  being filled passed along.
\<close>

fun on_lines :: "bool \<Rightarrow> string set \<Rightarrow> string list \<Rightarrow> string set" where
  "on_lines isFirstLine hashes [] = hashes"
| "on_lines isFirstLine hashes (line # rest) =
     (if isFirstLine then on_lines False hashes rest
      else (case line_hash line of
              None \<Rightarrow> on_lines False hashes rest
            | Some hash \<Rightarrow> on_lines False (insert hash hashes) rest))"

text \<open>
  The ledger file is given as the list of its lines, as \<open>readline\<close> delivers them.
\<close>

definition loadExistingHashes :: "string list \<Rightarrow> string set" where
  "loadExistingHashes lines = on_lines True {} lines"

section \<open>The delta fetcher: one page of the transfer list\<close>

text \<open>
  The \<open>items.forEach\<close> of \<open>pipelineBatch\<close>. A list item is represented by its
  \<open>transaction_hash\<close> field, \<open>None\<close> when the field is missing; an empty string is
  falsy too.
\<close>

fun collect_items :: "string set \<Rightarrow> string list \<Rightarrow> string option list \<Rightarrow> string set \<times> string list" where
  "collect_items seenHashes batch [] = (seenHashes, batch)"
| "collect_items seenHashes batch (item # items) =
     (case item of
        None \<Rightarrow> collect_items seenHashes batch items
      | Some h \<Rightarrow>
          if h \<noteq> [] \<and> h \<notin> seenHashes
          then collect_items (insert h seenHashes) (batch @ [h]) items
          else collect_items seenHashes batch items)"

section \<open>The bounded processor: retry of one item\<close>

text \<open>
  One call of \<open>processSingleTransaction\<close> either returns its rows or throws; \<open>Threw m\<close>
  carries \<open>e.message\<close>, \<open>None\<close> when the thrown value has no message.
\<close>

datatype 'a outcome = Returned 'a | Threw "string option"

text \<open>\<open>e.message && e.message.includes(code)\<close>.\<close>

definition message_includes :: "string option \<Rightarrow> string \<Rightarrow> bool" where
  "message_includes m code =
     (case m of None \<Rightarrow> False | Some msg \<Rightarrow> msg \<noteq> [] \<and> str_includes msg code)"

text \<open>
  The \<open>while (retries > 0)\<close> loop of the per-hash closure. \<open>attempt k\<close> is the outcome of
  the call made after \<open>k\<close> earlier calls, \<open>rnd k\<close> the value \<open>Math.random()\<close> yields in
  the handler of that call. The result is the value the closure resolves to (\<open>None\<close> for
  \<open>null\<close>) together with the durations, in milliseconds, passed to \<open>sleep\<close> on the way.
\<close>

fun retry_loop :: "nat \<Rightarrow> (nat \<Rightarrow> 'a outcome) \<Rightarrow> (nat \<Rightarrow> rat) \<Rightarrow> nat \<Rightarrow> 'a option \<times> rat list" where
  "retry_loop 0 attempt rnd k = (None, [])"
| "retry_loop (Suc retries) attempt rnd k =
     (case attempt k of
        Returned v \<Rightarrow> (Some v, [])
      | Threw m \<Rightarrow>
          if message_includes m ''429'' then
            (let (res, sleeps) = retry_loop retries attempt rnd (Suc k)
             in (res, (2000 + rnd k * 1000) # sleeps))
          else if message_includes m ''500'' then
            (let (res, sleeps) = retry_loop retries attempt rnd (Suc k)
             in (res, 3000 # sleeps))
          else (None, []))"

definition process_with_retry :: "(nat \<Rightarrow> 'a outcome) \<Rightarrow> (nat \<Rightarrow> rat) \<Rightarrow> 'a option \<times> rat list" where
  "process_with_retry attempt rnd = retry_loop 3 attempt rnd 0"

text \<open>
  The \<open>reduce\<close> over the results of a chunk: \<open>null\<close> results are left out, the row lists
  of the others are concatenated in order.
\<close>

fun validResults :: "'a list option list \<Rightarrow> 'a list" where
  "validResults [] = []"
| "validResults (None # rs) = validResults rs"
| "validResults (Some v # rs) = v @ validResults rs"

section \<open>JavaScript numbers and their parsers\<close>

text \<open>
  A Number is modelled by its mathematical value: \<open>Num r\<close> for a finite value \<open>r\<close>, the
  two infinities and \<open>NaN\<close>. Arithmetic on finite values is exact: the rounding of IEEE
  doubles, overflow to an infinity and the sign of zero are not part of the model.
\<close>

datatype number = NaN | Num rat | PosInf | NegInf

definition isNaN :: "number \<Rightarrow> bool" where
  "isNaN x = (x = NaN)"

fun js_less :: "number \<Rightarrow> number \<Rightarrow> bool" where
  "js_less NaN y = False"
| "js_less x NaN = False"
| "js_less (Num a) (Num b) = (a < b)"
| "js_less (Num a) PosInf = True"
| "js_less (Num a) NegInf = False"
| "js_less PosInf y = False"
| "js_less NegInf NegInf = False"
| "js_less NegInf y = True"

text \<open>\<open>x <= y\<close> is \<open>x < y || x == y\<close> on numbers, false when either side is \<open>NaN\<close>.\<close>

definition js_le :: "number \<Rightarrow> number \<Rightarrow> bool" where
  "js_le x y = (x \<noteq> NaN \<and> y \<noteq> NaN \<and> (js_less x y \<or> x = y))"

definition js_greater :: "number \<Rightarrow> number \<Rightarrow> bool" where
  "js_greater x y = js_less y x"

fun js_add :: "number \<Rightarrow> number \<Rightarrow> number" where
  "js_add NaN y = NaN"
| "js_add x NaN = NaN"
| "js_add (Num a) (Num b) = Num (a + b)"
| "js_add (Num a) y = y"
| "js_add PosInf NegInf = NaN"
| "js_add NegInf PosInf = NaN"
| "js_add x y = x"

fun js_mul :: "number \<Rightarrow> number \<Rightarrow> number" where
  "js_mul NaN y = NaN"
| "js_mul x NaN = NaN"
| "js_mul (Num a) (Num b) = Num (a * b)"
| "js_mul (Num a) PosInf = (if a = 0 then NaN else if 0 < a then PosInf else NegInf)"
| "js_mul (Num a) NegInf = (if a = 0 then NaN else if 0 < a then NegInf else PosInf)"
| "js_mul PosInf (Num b) = (if b = 0 then NaN else if 0 < b then PosInf else NegInf)"
| "js_mul NegInf (Num b) = (if b = 0 then NaN else if 0 < b then NegInf else PosInf)"
| "js_mul PosInf PosInf = PosInf"
| "js_mul NegInf NegInf = PosInf"
| "js_mul x y = NegInf"

text \<open>Division; a zero divisor is taken as \<open>+0\<close>.\<close>

fun js_div :: "number \<Rightarrow> number \<Rightarrow> number" where
  "js_div NaN y = NaN"
| "js_div x NaN = NaN"
| "js_div (Num a) (Num b) =
     (if b = 0 then (if a = 0 then NaN else if 0 < a then PosInf else NegInf)
      else Num (a / b))"
| "js_div (Num a) y = Num 0"
| "js_div PosInf (Num b) = (if b < 0 then NegInf else PosInf)"
| "js_div NegInf (Num b) = (if b < 0 then PosInf else NegInf)"
| "js_div x y = NaN"


subsection \<open>Digits\<close>

fun index_of :: "char \<Rightarrow> string \<Rightarrow> nat option" where
  "index_of c [] = None"
| "index_of c (x # xs) =
     (if x = c then Some 0 else map_option Suc (index_of c xs))"

text \<open>The value of a character as a digit in radix up to 36, in either case.\<close>

definition char_digit :: "char \<Rightarrow> nat option" where
  "char_digit c =
     (case index_of c ''0123456789abcdefghijklmnopqrstuvwxyz'' of
        Some v \<Rightarrow> Some v
      | None \<Rightarrow> index_of c ''0123456789ABCDEFGHIJKLMNOPQRSTUVWXYZ'')"

definition is_radix_digit :: "nat \<Rightarrow> char \<Rightarrow> bool" where
  "is_radix_digit radix c = (case char_digit c of None \<Rightarrow> False | Some v \<Rightarrow> v < radix)"

abbreviation is_digit :: "char \<Rightarrow> bool" where
  "is_digit \<equiv> is_radix_digit 10"

definition digits_value :: "nat \<Rightarrow> string \<Rightarrow> nat" where
  "digits_value radix s = foldl (\<lambda>acc c. acc * radix + the (char_digit c)) 0 s"

text \<open>White space that the parsers skip (the ASCII part of it).\<close>

definition is_space :: "char \<Rightarrow> bool" where
  "is_space c = (c \<in> set [CHR '' '', CHR 0x09, CHR 0x0A, CHR 0x0B, CHR 0x0C, CHR 0x0D])"

definition trim :: "string \<Rightarrow> string" where
  "trim s = rev (dropWhile is_space (rev (dropWhile is_space s)))"

subsection \<open>BigInt\<close>

datatype js_error = SyntaxError | TypeError

text \<open>
  \<open>BigInt(s)\<close> for a string: surrounding white space is dropped; the empty string is
  \<open>0n\<close>; a decimal literal may carry a sign; \<open>0x\<close>, \<open>0o\<close> and \<open>0b\<close> literals may not;
  anything else throws a SyntaxError.
\<close>

definition all_digits :: "nat \<Rightarrow> string \<Rightarrow> bool" where
  "all_digits radix s = (s \<noteq> [] \<and> list_all (is_radix_digit radix) s)"

definition BigInt :: "string \<Rightarrow> js_error + int" where
  "BigInt s =
     (let t = trim s in
      if t = [] then Inr 0
      else if all_digits 10 t then Inr (int (digits_value 10 t))
      else if hd t = CHR ''+'' \<and> all_digits 10 (tl t) then Inr (int (digits_value 10 (tl t)))
      else if hd t = CHR ''-'' \<and> all_digits 10 (tl t) then Inr (- int (digits_value 10 (tl t)))
      else if (take 2 t = ''0x'' \<or> take 2 t = ''0X'') \<and> all_digits 16 (drop 2 t)
        then Inr (int (digits_value 16 (drop 2 t)))
      else if (take 2 t = ''0o'' \<or> take 2 t = ''0O'') \<and> all_digits 8 (drop 2 t)
        then Inr (int (digits_value 8 (drop 2 t)))
      else if (take 2 t = ''0b'' \<or> take 2 t = ''0B'') \<and> all_digits 2 (drop 2 t)
        then Inr (int (digits_value 2 (drop 2 t)))
      else Inl SyntaxError)"

text \<open>\<open>n.toString()\<close> for a BigInt: the decimal digits, after a minus sign when negative.\<close>

fun nat_toString :: "nat \<Rightarrow> string" where
  "nat_toString n =
     (if n < 10 then [''0123456789'' ! n]
      else nat_toString (n div 10) @ [''0123456789'' ! (n mod 10)])"

declare nat_toString.simps [simp del]

definition bigint_toString :: "int \<Rightarrow> string" where
  "bigint_toString i = (if i < 0 then CHR ''-'' # nat_toString (nat (- i)) else nat_toString (nat i))"

subsection \<open>\<open>parseInt\<close> and \<open>parseFloat\<close>\<close>

text \<open>
  \<open>parseInt(s)\<close> with no radix: leading white space and a sign are read, then \<open>0x\<close>
  selects radix 16, and the longest run of digits is the value; \<open>None\<close> stands for the
  result \<open>NaN\<close>.
\<close>

definition parseInt :: "string \<Rightarrow> int option" where
  "parseInt s =
     (let t = dropWhile is_space s;
          neg = (t \<noteq> [] \<and> hd t = CHR ''-'');
          u = (if t \<noteq> [] \<and> (hd t = CHR ''-'' \<or> hd t = CHR ''+'') then tl t else t);
          hex = (take 2 u = ''0x'' \<or> take 2 u = ''0X'');
          radix = (if hex then 16 else 10);
          ds = takeWhile (is_radix_digit radix) (if hex then drop 2 u else u)
      in if ds = [] then None
         else Some ((if neg then - 1 else 1) * int (digits_value radix ds)))"

text \<open>Scaling by a power of ten with an integer exponent.\<close>

definition scale10 :: "rat \<Rightarrow> int \<Rightarrow> rat" where
  "scale10 m e = (if 0 \<le> e then m * 10 ^ nat e else m / 10 ^ nat (- e))"

text \<open>
  The exponent part read after the mantissa, if there is a complete one: \<open>e\<close> or \<open>E\<close>,
  an optional sign and at least one digit.
\<close>

definition exponent_part :: "string \<Rightarrow> int" where
  "exponent_part r =
     (if r \<noteq> [] \<and> (hd r = CHR ''e'' \<or> hd r = CHR ''E'') then
        (let r1 = tl r;
             neg = (r1 \<noteq> [] \<and> hd r1 = CHR ''-'');
             r2 = (if r1 \<noteq> [] \<and> (hd r1 = CHR ''-'' \<or> hd r1 = CHR ''+'') then tl r1 else r1);
             ds = takeWhile is_digit r2
         in if ds = [] then 0
            else (if neg then - 1 else 1) * int (digits_value 10 ds))
      else 0)"

text \<open>
  \<open>parseFloat(s)\<close>: leading white space is skipped and the longest prefix that is a decimal
  literal is read: a sign, then \<open>Infinity\<close>, or digits with an optional fraction and
  exponent; \<open>NaN\<close> when there is no such prefix.
\<close>

definition parseFloat :: "string \<Rightarrow> number" where
  "parseFloat s =
     (let t = dropWhile is_space s;
          neg = (t \<noteq> [] \<and> hd t = CHR ''-'');
          u = (if t \<noteq> [] \<and> (hd t = CHR ''-'' \<or> hd t = CHR ''+'') then tl t else t)
      in if prefix ''Infinity'' u then (if neg then NegInf else PosInf)
         else
           (let ip = takeWhile is_digit u;
                r1 = dropWhile is_digit u;
                dot = (r1 \<noteq> [] \<and> hd r1 = CHR ''.'');
                fp = (if dot then takeWhile is_digit (tl r1) else []);
                r2 = (if dot then dropWhile is_digit (tl r1) else r1)
            in if ip = [] \<and> fp = [] then NaN
               else
                 (let mant = rat_of_nat (digits_value 10 (ip @ fp)) / 10 ^ length fp;
                      v = scale10 mant (exponent_part r2)
                  in Num (if neg then - v else v))))"

section \<open>The amount decoder\<close>

text \<open>
  \<open>s.slice(start, end)\<close> with the clamping of the built-in: a negative index counts from
  the end, and both are cut to the range of the string. \<open>None\<close> stands for an index that
  is \<open>NaN\<close>, which \<open>slice\<close> reads as 0.
\<close>

definition slice_index :: "string \<Rightarrow> int option \<Rightarrow> nat" where
  "slice_index s i =
     (case i of
        None \<Rightarrow> 0
      | Some j \<Rightarrow> if j < 0 then nat (int (length s) + j) else min (nat j) (length s))"

definition slice :: "string \<Rightarrow> int option \<Rightarrow> int option \<Rightarrow> string" where
  "slice s start end = drop (slice_index s start) (take (slice_index s end) s)"

definition slice_from :: "string \<Rightarrow> int option \<Rightarrow> string" where
  "slice_from s start = drop (slice_index s start) s"

text \<open>\<open>s.length - decimals\<close>, where \<open>decimals\<close> is \<open>None\<close> when \<open>parseInt\<close> gave \<open>NaN\<close>.\<close>

definition length_minus :: "string \<Rightarrow> int option \<Rightarrow> int option" where
  "length_minus s decimals = map_option (\<lambda>d. int (length s) - d) decimals"





text \<open>\<open>str.padStart(n, '0')\<close>; a \<open>NaN\<close> length leaves the string as it is.\<close>

definition padStart0 :: "string \<Rightarrow> int option \<Rightarrow> string" where
  "padStart0 s n =
     (case n of
        None \<Rightarrow> s
      | Some m \<Rightarrow> replicate (nat (m - int (length s))) CHR ''0'' @ s)"

text \<open>
  The decoder of the one-row-per-transaction pipeline: split when the digits are more
  than \<open>decimals\<close>, else pad behind \<open>0.\<close>; a comparison with \<open>NaN\<close> is false.
\<close>

definition decode_sliced :: "int \<Rightarrow> int option \<Rightarrow> number" where
  "decode_sliced rawVal decimals =
     (let str = bigint_toString rawVal in
      if (case decimals of None \<Rightarrow> False | Some d \<Rightarrow> int (length str) > d)
      then parseFloat (slice str (Some 0) (length_minus str decimals) @ ''.''
                         @ slice_from str (length_minus str decimals))
      else parseFloat (''0.'' @ padStart0 str decimals))"

text \<open>
  A string field that may be missing: \<open>None\<close> for \<open>undefined\<close> or \<open>null\<close>. \<open>a || b\<close> on
  such fields takes \<open>b\<close> when \<open>a\<close> is missing or empty.
\<close>

definition str_truthy :: "string option \<Rightarrow> bool" where
  "str_truthy v = (case v of None \<Rightarrow> False | Some s \<Rightarrow> s \<noteq> [])"

definition or_else :: "string option \<Rightarrow> string \<Rightarrow> string" where
  "or_else v dflt = (if str_truthy v then the v else dflt)"

text \<open>
  The whole decoding step of a transfer as both pipelines write it: nothing is decoded
  when \<open>total.value\<close> is missing or empty (\<open>None\<close> is returned: the caller keeps its
  initial value); otherwise \<open>decimals\<close> is parsed, with the default given, and
  \<open>BigInt\<close> may throw.
\<close>

definition decodeAmount :: "(int \<Rightarrow> int option \<Rightarrow> number) \<Rightarrow> string \<Rightarrow> string option \<Rightarrow> string option
    \<Rightarrow> js_error + number option" where
  "decodeAmount decoder dflt value decimals =
     (if str_truthy value then
        (let d = parseInt (or_else decimals dflt) in
         case BigInt (the value) of
           Inl e \<Rightarrow> Inl e
         | Inr rawVal \<Rightarrow> Inr (Some (decoder rawVal d)))
      else Inr None)"

section \<open>Enriching one transaction\<close>

text \<open>\<open>s.toLowerCase()\<close> on the ASCII letters, which is all an address holds.\<close>

definition to_lower_char :: "char \<Rightarrow> char" where
  "to_lower_char c =
     (case index_of c ''ABCDEFGHIJKLMNOPQRSTUVWXYZ'' of
        None \<Rightarrow> c
      | Some i \<Rightarrow> ''abcdefghijklmnopqrstuvwxyz'' ! i)"

definition toLowerCase :: "string \<Rightarrow> string" where
  "toLowerCase s = map to_lower_char s"

definition CNGN_USD_FALLBACK :: number where
  "CNGN_USD_FALLBACK = Num (657 / 1000000)"

definition CNGN_ADDRESS :: string where
  "CNGN_ADDRESS = toLowerCase ''0x7923C0f6FA3d1BA6EAFCAedAaD93e737Fd22FC4F''"

text \<open>
  One token transfer of the upstream response (\<open>TokenTransferV2\<close>), flattened: the
  \<open>hash\<close> and optional \<open>name\<close> of \<open>from\<close> and \<open>to\<close>, the fields of \<open>token\<close>, and those of
  \<open>total\<close>. \<open>total_value\<close> is \<open>None\<close> when \<open>total\<close> or its \<open>value\<close> is missing.
\<close>

record transfer =
  from_hash :: string
  from_name :: "string option"
  to_hash :: string
  to_name :: "string option"
  token_address :: string
  token_symbol :: string
  token_decimals :: "string option"
  token_exchange_rate :: "string option"
  total_value :: "string option"
  total_decimals :: "string option"

definition is_cngn :: "transfer \<Rightarrow> bool" where
  "is_cngn i = (toLowerCase (token_address i) = toLowerCase CNGN_ADDRESS)"

text \<open>\<open>name && name.includes(word)\<close>.\<close>

definition name_includes :: "string option \<Rightarrow> string \<Rightarrow> bool" where
  "name_includes nm word = (str_truthy nm \<and> str_includes (the nm) word)"

subsection \<open>The per-transfer pipeline: one row for each cNGN transfer\<close>

record FormattedTransaction =
  transaction_hash :: string
  cngn_amount :: "number option"
  usd_value :: "number option"
  trader_address :: string
  pool_address :: string
  pool_name :: "string option"
  token_in_address :: "string option"
  token_out_address :: "string option"







subsection \<open>The full-ledger pipeline: one row for each transaction\<close>

text \<open>
  The part of the detail response (\<open>AssetChainTxV2\<close>) that the row is computed from:
  the sender, the optional receiver with its name and contract flag, and the token
  transfers (an array, or the \<open>items\<close> of an object; empty when neither).
\<close>

record AssetChainTxV2 =
  tx_from_hash :: string
  tx_to :: "(string \<times> string option \<times> bool) option"
  token_transfers :: "transfer list"

text \<open>The variables that the loop over the transfers updates.\<close>

record tally =
  tokenInAddr :: string
  tokenInSym :: string
  tokenInAmt :: number
  tokenOutAddr :: string
  tokenOutSym :: string
  tokenOutAmt :: number
  cngnAmt :: number
  usdValue :: number
  poolAddress :: string
  poolName :: string

definition initial_tally :: tally where
  "initial_tally =
     \<lparr> tokenInAddr = [], tokenInSym = [], tokenInAmt = Num 0,
       tokenOutAddr = [], tokenOutSym = [], tokenOutAmt = Num 0,
       cngnAmt = Num 0, usdValue = Num 0, poolAddress = [], poolName = [] \<rparr>"

text \<open>One round of \<open>for (const item of items)\<close>; \<open>BigInt\<close> may throw.\<close>

definition item_step :: "string \<Rightarrow> tally \<Rightarrow> transfer \<Rightarrow> js_error + tally" where
  "item_step traderAddress t item =
     (case decodeAmount decode_sliced ''18'' (total_value item) (token_decimals item) of
        Inl e \<Rightarrow> Inl e
      | Inr decoded \<Rightarrow>
          (let val = (case decoded of None \<Rightarrow> Num 0 | Some v \<Rightarrow> v);
               t1 = (if is_cngn item then
                       (let t0 = t\<lparr>cngnAmt := js_add (cngnAmt t) val\<rparr> in
                        if name_includes (to_name item) ''Pool''
                        then t0\<lparr>poolAddress := to_hash item, poolName := the (to_name item)\<rparr>
                        else if name_includes (from_name item) ''Pool''
                        then t0\<lparr>poolAddress := from_hash item, poolName := the (from_name item)\<rparr>
                        else t0)
                     else t);
               t2 = (if toLowerCase (from_hash item) = toLowerCase traderAddress
                     then t1\<lparr>tokenInAddr := token_address item,
                             tokenInSym := token_symbol item, tokenInAmt := val\<rparr>
                     else if toLowerCase (to_hash item) = toLowerCase traderAddress
                     then t1\<lparr>tokenOutAddr := token_address item,
                             tokenOutSym := token_symbol item, tokenOutAmt := val\<rparr>
                     else t1)
           in Inr (if token_symbol item = ''USDT'' \<or> token_symbol item = ''USDC''
                   then t2\<lparr>usdValue := val\<rparr> else t2)))"

fun items_loop :: "string \<Rightarrow> tally \<Rightarrow> transfer list \<Rightarrow> js_error + tally" where
  "items_loop traderAddress t [] = Inr t"
| "items_loop traderAddress t (item # items) =
     (case item_step traderAddress t item of
        Inl e \<Rightarrow> Inl e
      | Inr t' \<Rightarrow> items_loop traderAddress t' items)"

text \<open>\<open>if (usdValue === 0 && cngnAmt > 0) usdValue = cngnAmt * CNGN_USD_FALLBACK\<close>.\<close>

definition apply_fallback :: "tally \<Rightarrow> tally" where
  "apply_fallback t =
     (if usdValue t = Num 0 \<and> js_greater (cngnAmt t) (Num 0)
      then t\<lparr>usdValue := js_mul (cngnAmt t) CNGN_USD_FALLBACK\<rparr> else t)"

definition CONTRACT_NAMES :: "string \<Rightarrow> string option" where
  "CONTRACT_NAMES = map_of
     [(''0x7923c0f6fa3d1ba6eafcaedaad93e737fd22fc4f'', ''cNGN Token''),
      (''0xe2a45a102b00fad6447d0ad859b43baf8bf6def1'', ''UniswapV3Pool (cNGN/USDT)''),
      (''0x26e490d30e73c36800788dc6d6315946c4bbea24'', ''USDT''),
      (''0x54527b09aeb2be23f99958db8f2f827dab863a28'', ''UniswapV3Router''),
      (''0xec2b2209d710d4283b5d1e29441df0dbb9cee5c3'', ''SwapRouter''),
      (''0x8804e26b04f52b0183ece80b797d1c1079956e56'', ''NonfungiblePositionManager'')]"

text \<open>Address and name of the contract the transaction was sent to.\<close>

definition interacted_contract :: "AssetChainTxV2 \<Rightarrow> string \<times> string" where
  "interacted_contract details =
     (case tx_to details of
        None \<Rightarrow> ([], [])
      | Some (h, nm, is_contract) \<Rightarrow>
          (let interactedName =
                 (if str_truthy nm then the nm
                  else or_else (CONTRACT_NAMES (toLowerCase h)) [])
           in (h, if interactedName = [] \<and> is_contract then ''Unknown Contract''
                  else interactedName)))"

record LedgerRow =
  row_transaction_hash :: string
  row_trader_address :: string
  row_interacted_contract_address :: string
  row_interacted_contract_name :: string
  row_token_in_address :: string
  row_token_in_symbol :: string
  row_token_in_amount :: number
  row_token_out_address :: string
  row_token_out_symbol :: string
  row_token_out_amount :: number
  row_cngn_amount :: number
  row_usd_value :: number
  row_pool_address :: string
  row_pool_name :: string

text \<open>
  \<open>processSingleTransaction\<close> of this pipeline; \<open>details\<close> is \<open>None\<close> when the detail
  request failed. The columns copied unchanged from the detail response (block number,
  time, status, method, fee, gas) are left out of the row.
\<close>

definition processSingleTransaction :: "string \<Rightarrow> AssetChainTxV2 option \<Rightarrow> js_error + LedgerRow list" where
  "processSingleTransaction hash details_opt =
     (case details_opt of
        None \<Rightarrow> Inr []
      | Some details \<Rightarrow>
          (let items = token_transfers details in
           if \<not> list_ex is_cngn items then Inr []
           else
             (let traderAddress = tx_from_hash details in
              case items_loop traderAddress initial_tally items of
                Inl e \<Rightarrow> Inl e
              | Inr t0 \<Rightarrow>
                  (let t = apply_fallback t0 in
                   Inr [\<lparr> row_transaction_hash = hash,
                          row_trader_address = traderAddress,
                          row_interacted_contract_address = fst (interacted_contract details),
                          row_interacted_contract_name = snd (interacted_contract details),
                          row_token_in_address = tokenInAddr t,
                          row_token_in_symbol = tokenInSym t,
                          row_token_in_amount = tokenInAmt t,
                          row_token_out_address = tokenOutAddr t,
                          row_token_out_symbol = tokenOutSym t,
                          row_token_out_amount = tokenOutAmt t,
                          row_cngn_amount = cngnAmt t,
                          row_usd_value = usdValue t,
                          row_pool_address = poolAddress t,
                          row_pool_name = poolName t \<rparr>]))))"

subsection \<open>The valuation policy, as a specification\<close>

text \<open>
  The decoded amount of a transfer as each pipeline reads it, for a transfer whose
  \<open>total.value\<close> \<open>BigInt\<close> accepts: the full-ledger pipeline starts from 0 and reads
  \<open>token.decimals\<close> with default 18; the per-transfer pipeline starts from \<open>null\<close> and
  reads the decimals given, with default 6.
\<close>

definition amount_sliced :: "transfer \<Rightarrow> number" where
  "amount_sliced i =
     (case decodeAmount decode_sliced ''18'' (total_value i) (token_decimals i) of
        Inr (Some v) \<Rightarrow> v
      | _ \<Rightarrow> Num 0)"


definition is_stable :: "transfer \<Rightarrow> bool" where
  "is_stable i = (token_symbol i = ''USDT'' \<or> token_symbol i = ''USDC'')"

text \<open>
  Full-ledger pipeline: the amount of the last USDT or USDC transfer, replaced by the
  cNGN total times the constant rate when it is 0 (or there is none) and the cNGN total
  is positive.
\<close>

definition usd_per_transaction :: "transfer list \<Rightarrow> number" where
  "usd_per_transaction items =
     (let stable = filter is_stable items;
          direct = (if stable = [] then Num 0 else amount_sliced (last stable));
          cngn = foldl js_add (Num 0) (map amount_sliced (filter is_cngn items))
      in if direct = Num 0 \<and> js_greater cngn (Num 0)
         then js_mul cngn CNGN_USD_FALLBACK else direct)"


text \<open>No amount in the list makes \<open>BigInt\<close> throw.\<close>

definition amounts_parse :: "transfer list \<Rightarrow> bool" where
  "amounts_parse items =
     list_all (\<lambda>i. str_truthy (total_value i) \<longrightarrow> \<not> isl (BigInt (the (total_value i)))) items"

subsection \<open>Sample transfers\<close>

text \<open>
  A cNGN transfer of 1.0 from a trader into a pool, the same with an exchange rate
  attached, one with an amount that is no integer, and stablecoin transfers of 2.0 USDC
  and 2.5 USDT back to the trader.
\<close>

definition sample_cngn :: transfer where
  "sample_cngn =
     \<lparr> from_hash = ''0xaa'', from_name = None,
       to_hash = ''0xbb'', to_name = Some ''UniswapV3Pool'',
       token_address = ''0x7923C0f6FA3d1BA6EAFCAedAaD93e737Fd22FC4F'', token_symbol = ''cNGN'',
       token_decimals = Some ''6'', token_exchange_rate = None,
       total_value = Some ''1000000'', total_decimals = None \<rparr>"

definition sample_cngn_rated :: transfer where
  "sample_cngn_rated = sample_cngn \<lparr> token_exchange_rate := Some ''0.001'' \<rparr>"

definition sample_cngn_malformed :: transfer where
  "sample_cngn_malformed = sample_cngn \<lparr> total_value := Some ''1.5'' \<rparr>"

definition sample_usdc :: transfer where
  "sample_usdc =
     \<lparr> from_hash = ''0xbb'', from_name = Some ''UniswapV3Pool'',
       to_hash = ''0xaa'', to_name = None,
       token_address = ''0xcc'', token_symbol = ''USDC'',
       token_decimals = Some ''6'', token_exchange_rate = None,
       total_value = Some ''2000000'', total_decimals = None \<rparr>"

definition sample_usdt :: transfer where
  "sample_usdt =
     \<lparr> from_hash = ''0xbb'', from_name = Some ''UniswapV3Pool'',
       to_hash = ''0xaa'', to_name = None,
       token_address = ''0x26e490d30e73c36800788dc6d6315946c4bbea24'', token_symbol = ''USDT'',
       token_decimals = Some ''6'', token_exchange_rate = None,
       total_value = Some ''2500000'', total_decimals = None \<rparr>"

definition sample_details :: "transfer list \<Rightarrow> AssetChainTxV2" where
  "sample_details items =
     \<lparr> tx_from_hash = ''0xaa'',
       tx_to = Some (''0xec2b2209d710d4283b5d1e29441df0dbb9cee5c3'', None, True),
       token_transfers = items \<rparr>"

section \<open>The VWAP series builder\<close>

subsection \<open>Reading the ledger\<close>

text \<open>
  \<open>splitCsvLine\<close>: the loop over the characters of a line, with the flag \<open>inQuotes\<close>, the
  field being built and the fields finished so far. A doubled quote inside quotes is
  one quote character and is skipped over in one step.
\<close>

fun split_loop :: "bool \<Rightarrow> string \<Rightarrow> string list \<Rightarrow> string \<Rightarrow> string list" where
  "split_loop inQuotes current result [] = result @ [current]"
| "split_loop inQuotes current result (char # rest) =
     (if char = CHR 0x22 then
        (case rest of
           [] \<Rightarrow> split_loop (\<not> inQuotes) current result rest
         | next # rest' \<Rightarrow>
             if inQuotes \<and> next = CHR 0x22
             then split_loop inQuotes (current @ [CHR 0x22]) result rest'
             else split_loop (\<not> inQuotes) current result rest)
      else if char = CHR '','' \<and> \<not> inQuotes
        then split_loop inQuotes [] (result @ [current]) rest
      else split_loop inQuotes (current @ [char]) result rest)"

definition splitCsvLine :: "string \<Rightarrow> string list" where
  "splitCsvLine line = split_loop False [] [] line"

text \<open>\<open>parseDate\<close>: the part before the first space.\<close>

definition parseDate :: "string \<Rightarrow> string" where
  "parseDate dateStr = (if dateStr = [] then [] else hd (split_on CHR '' '' dateStr))"

record DailyStat =
  totalUsd :: number
  totalCngn :: number

text \<open>
  What the \<open>line\<close> handler updates: the map from date key to the totals of the day, and
  the least and greatest date key seen, compared as strings.
\<close>

record vwap_scan =
  dailyStats :: "string \<rightharpoonup> DailyStat"
  minDate :: string
  maxDate :: string

definition initial_scan :: vwap_scan where
  "initial_scan = \<lparr> dailyStats = Map.empty, minDate = [], maxDate = [] \<rparr>"

definition DUST :: number where
  "DUST = Num (1 / 1000000)"

text \<open>The accumulation into the bucket of a date and the update of the range.\<close>

definition add_trade :: "vwap_scan \<Rightarrow> string \<Rightarrow> number \<Rightarrow> number \<Rightarrow> vwap_scan" where
  "add_trade st dateKey cngnAmount usdVal =
     (let stats = (if dailyStats st dateKey = None
                   then (dailyStats st)(dateKey \<mapsto> \<lparr> totalUsd = Num 0, totalCngn = Num 0 \<rparr>)
                   else dailyStats st);
          stat = the (stats dateKey)
      in \<lparr> dailyStats = stats(dateKey \<mapsto>
               \<lparr> totalUsd = js_add (totalUsd stat) usdVal,
                 totalCngn = js_add (totalCngn stat) cngnAmount \<rparr>),
           minDate = (if minDate st = [] \<or> dateKey < minDate st then dateKey else minDate st),
           maxDate = (if maxDate st = [] \<or> dateKey > maxDate st then dateKey else maxDate st) \<rparr>)"

text \<open>
  The \<open>line\<close> handler for a line after the header (\<open>usdVal\<close> and \<open>poolNm\<close> are the
  handler's \<open>usdValue\<close> and \<open>poolName\<close>).
\<close>

definition on_line :: "vwap_scan \<Rightarrow> string \<Rightarrow> vwap_scan" where
  "on_line st line =
     (if line = [] \<or> trim line = [] then st
      else
        (let parts = splitCsvLine line in
         if length parts < 18 then st
         else
           (let dateStr = parts ! 2;
                contractName = parts ! 6;
                tokenInSym = parts ! 9;
                tokenOutSym = parts ! 12;
                cngnRaw = parts ! 14;
                usdRaw = parts ! 15;
                poolNm = parts ! 17;
                isSwapRouter = (contractName = ''SwapRouter'');
                isStablecoinTrade = (tokenInSym = ''USDT'' \<or> tokenInSym = ''USDC''
                                      \<or> tokenOutSym = ''USDT'' \<or> tokenOutSym = ''USDC'');
                isPoolMatch = (poolNm \<noteq> [] \<and> (str_includes poolNm ''USDT''
                                                  \<or> str_includes poolNm ''USDC''))
            in if isSwapRouter \<and> (isStablecoinTrade \<or> isPoolMatch) then
                 (let dateKey = parseDate dateStr;
                      cngnAmount = parseFloat cngnRaw;
                      usdVal = parseFloat usdRaw
                  in if isNaN cngnAmount \<or> isNaN usdVal then st
                     else if js_le cngnAmount DUST \<or> js_le usdVal DUST then st
                     else add_trade st dateKey cngnAmount usdVal)
               else st)))"

text \<open>All \<open>line\<close> events of the file: the first line is the header.\<close>

definition scan_ledger :: "string list \<Rightarrow> vwap_scan" where
  "scan_ledger lines = foldl on_line initial_scan (drop 1 lines)"

subsection \<open>Dates\<close>

text \<open>
  A \<open>Date\<close> is modelled by its day number, counted from 1970-01-01 in UTC: the series
  only ever holds dates at midnight UTC. The day number of a civil date and back, for
  the proleptic Gregorian calendar; a day of the month beyond the end of the month runs
  over into the next one.
\<close>

definition days_from_civil :: "int \<Rightarrow> int \<Rightarrow> int \<Rightarrow> int" where
  "days_from_civil y m d =
     (let y' = (if m \<le> 2 then y - 1 else y);
          era = y' div 400;
          yoe = y' - era * 400;
          doy = (153 * (if m > 2 then m - 3 else m + 9) + 2) div 5 + d - 1;
          doe = yoe * 365 + yoe div 4 - yoe div 100 + doy
      in era * 146097 + doe - 719468)"

definition civil_from_days :: "int \<Rightarrow> int \<times> int \<times> int" where
  "civil_from_days z =
     (let z' = z + 719468;
          era = z' div 146097;
          doe = z' - era * 146097;
          yoe = (doe - doe div 1460 + doe div 36524 - doe div 146096) div 365;
          doy = doe - (365 * yoe + yoe div 4 - yoe div 100);
          mp = (5 * doy + 2) div 153;
          d = doy - (153 * mp + 2) div 5 + 1;
          m = (if mp < 10 then mp + 3 else mp - 9)
      in ((if m \<le> 2 then yoe + era * 400 + 1 else yoe + era * 400), m, d))"

text \<open>
  \<open>new Date(s)\<close> for a date key. Only the date-only ISO form \<open>YYYY-MM-DD\<close> is modelled,
  which is read as midnight UTC, with month 1 to 12 and day 1 to 31; every other string
  is taken to give an invalid date, \<open>None\<close>.
\<close>

definition Date_parse :: "string \<Rightarrow> int option" where
  "Date_parse s =
     (if length s = 10 \<and> s ! 4 = CHR ''-'' \<and> s ! 7 = CHR ''-''
         \<and> list_all is_digit (take 4 s) \<and> list_all is_digit (take 2 (drop 5 s))
         \<and> list_all is_digit (drop 8 s)
      then
        (let y = int (digits_value 10 (take 4 s));
             m = int (digits_value 10 (take 2 (drop 5 s)));
             d = int (digits_value 10 (drop 8 s))
         in if 1 \<le> m \<and> m \<le> 12 \<and> 1 \<le> d \<and> d \<le> 31 then Some (days_from_civil y m d)
            else None)
      else None)"

text \<open>Decimal digits of a number, padded with zeros on the left to a width.\<close>

definition pad_number :: "nat \<Rightarrow> nat \<Rightarrow> string" where
  "pad_number width n =
     replicate (width - length (nat_toString n)) CHR ''0'' @ nat_toString n"

text \<open>
  \<open>date.toISOString().split('T')[0]\<close>: the calendar date in UTC, with a four-digit year,
  or a sign and six digits outside the years 0 to 9999.
\<close>

definition toISODate :: "int \<Rightarrow> string" where
  "toISODate z =
     (case civil_from_days z of (y, m, d) \<Rightarrow>
        (if 0 \<le> y \<and> y \<le> 9999 then pad_number 4 (nat y)
         else (if y < 0 then ''-'' else ''+'') @ pad_number 6 (nat \<bar>y\<bar>))
        @ ''-'' @ pad_number 2 (nat m) @ ''-'' @ pad_number 2 (nat d))"

text \<open>\<open>new Date('2030-01-01')\<close>.\<close>

definition SAFETY_YEAR_LIMIT :: int where
  "SAFETY_YEAR_LIMIT = days_from_civil 2030 1 1"

subsection \<open>Generating the series\<close>

record VwapRecord =
  date :: string
  vwap :: number
  volumeCngn :: number
  volumeUsd :: number

text \<open>
  One round of the \<open>while\<close> loop: the record of the day and the new \<open>lastKnownVwap\<close>.
\<close>

definition day_record :: "(string \<rightharpoonup> DailyStat) \<Rightarrow> int \<Rightarrow> number \<Rightarrow> VwapRecord \<times> number" where
  "day_record stats currentDate lastKnownVwap =
     (let dateKey = toISODate currentDate in
      case stats dateKey of
        None \<Rightarrow>
          (\<lparr> date = dateKey, vwap = lastKnownVwap, volumeCngn = Num 0, volumeUsd = Num 0 \<rparr>,
           lastKnownVwap)
      | Some stat \<Rightarrow>
          if js_greater (totalCngn stat) (Num 0) then
            (\<lparr> date = dateKey, vwap = js_div (totalUsd stat) (totalCngn stat),
               volumeCngn = totalCngn stat, volumeUsd = totalUsd stat \<rparr>,
             js_div (totalUsd stat) (totalCngn stat))
          else
            (\<lparr> date = dateKey, vwap = lastKnownVwap, volumeCngn = Num 0, volumeUsd = Num 0 \<rparr>,
             lastKnownVwap))"

text \<open>
  The loop \<open>while (currentDate <= endDate && currentDate < SAFETY_YEAR_LIMIT)\<close>, one day
  further in each round. The step \<open>setDate(getDate() + 1)\<close> works in local time; it is
  modelled for a process whose local time has a constant offset from UTC, where it adds
  exactly one day.
\<close>

function series_loop :: "(string \<rightharpoonup> DailyStat) \<Rightarrow> int \<Rightarrow> int \<Rightarrow> number \<Rightarrow> VwapRecord list" where
  "series_loop stats currentDate endDate lastKnownVwap =
     (if currentDate \<le> endDate \<and> currentDate < SAFETY_YEAR_LIMIT then
        (case day_record stats currentDate lastKnownVwap of
           (r, lastKnownVwap') \<Rightarrow> r # series_loop stats (currentDate + 1) endDate lastKnownVwap')
      else [])"
  by pat_completeness auto
termination
  by (relation "measure (\<lambda>(stats, currentDate, endDate, l). nat (endDate + 1 - currentDate))") auto

declare series_loop.simps [simp del]

text \<open>
  The records written after the scan; \<open>None\<close> when the scan found no trade and the
  function returns early. A comparison with an invalid date is false, so the loop does
  not run when either end of the range is invalid.
\<close>

definition generate_series :: "vwap_scan \<Rightarrow> VwapRecord list option" where
  "generate_series st =
     (if minDate st = [] then None
      else Some (case (Date_parse (minDate st), Date_parse (maxDate st)) of
                   (Some currentDate, Some endDate) \<Rightarrow>
                     series_loop (dailyStats st) currentDate endDate (Num 0)
                 | _ \<Rightarrow> []))"

definition calculateVWAP :: "string list \<Rightarrow> VwapRecord list option" where
  "calculateVWAP lines = generate_series (scan_ledger lines)"

subsection \<open>The qualification predicate and the carried price, as specifications\<close>

text \<open>
  The trade-qualification predicate on the fields of a ledger row: routed through the
  swap router, a stablecoin as token in or out or named in the pool, and both amounts
  above the dust threshold.
\<close>

definition through_router :: "string list \<Rightarrow> bool" where
  "through_router parts = (parts ! 6 = ''SwapRouter'')"

definition stablecoin_signal :: "string list \<Rightarrow> bool" where
  "stablecoin_signal parts =
     (parts ! 9 \<in> {''USDT'', ''USDC''} \<or> parts ! 12 \<in> {''USDT'', ''USDC''}
      \<or> str_includes (parts ! 17) ''USDT'' \<or> str_includes (parts ! 17) ''USDC'')"

definition above_dust :: "string list \<Rightarrow> bool" where
  "above_dust parts =
     (js_greater (parseFloat (parts ! 14)) DUST \<and> js_greater (parseFloat (parts ! 15)) DUST)"

definition qualifies :: "string list \<Rightarrow> bool" where
  "qualifies parts = (through_router parts \<and> stablecoin_signal parts \<and> above_dust parts)"

text \<open>The totals of a date bucket before a row is added: 0 when there is no bucket yet.\<close>

definition bucket :: "vwap_scan \<Rightarrow> string \<Rightarrow> DailyStat" where
  "bucket st dateKey =
     (case dailyStats st dateKey of
        None \<Rightarrow> \<lparr> totalUsd = Num 0, totalCngn = Num 0 \<rparr>
      | Some stat \<Rightarrow> stat)"

text \<open>The date keys of the qualifying rows of a ledger file, in file order.\<close>

definition trade_dates :: "string list \<Rightarrow> string list" where
  "trade_dates lines =
     map (\<lambda>l. parseDate (splitCsvLine l ! 2))
       (filter (\<lambda>l. 18 \<le> length (splitCsvLine l) \<and> qualifies (splitCsvLine l)) (drop 1 lines))"

text \<open>
  A day has volume when its bucket exists with a positive token total; its price is
  then the USD total over the token total.
\<close>

definition has_volume :: "(string \<rightharpoonup> DailyStat) \<Rightarrow> int \<Rightarrow> bool" where
  "has_volume stats day =
     (case stats (toISODate day) of
        None \<Rightarrow> False
      | Some stat \<Rightarrow> js_greater (totalCngn stat) (Num 0))"

definition day_price :: "(string \<rightharpoonup> DailyStat) \<Rightarrow> int \<Rightarrow> number" where
  "day_price stats day =
     (case stats (toISODate day) of
        None \<Rightarrow> Num 0
      | Some stat \<Rightarrow> js_div (totalUsd stat) (totalCngn stat))"

text \<open>
  The value of \<open>lastKnownVwap\<close> at the start of round \<open>i\<close> of the loop that began at day
  \<open>cur\<close> with the value \<open>l\<close>.
\<close>

fun last_before :: "(string \<rightharpoonup> DailyStat) \<Rightarrow> int \<Rightarrow> number \<Rightarrow> nat \<Rightarrow> number" where
  "last_before stats cur l 0 = l"
| "last_before stats cur l (Suc i) = last_before stats (cur + 1) (snd (day_record stats cur l)) i"

subsection \<open>A sample ledger\<close>

text \<open>
  A row of the full ledger for a swap through the router: 100 cNGN against 7 USDT, with
  the hash and the time stamp given.
\<close>

definition sample_row :: "string \<Rightarrow> string \<Rightarrow> string" where
  "sample_row hash timestamp =
     join '',''
       [hash, ''1'', timestamp, ''ok'', ''0xaa'', ''0xec2b2209d710d4283b5d1e29441df0dbb9cee5c3'',
        ''SwapRouter'', ''swap'', ''0x79'', ''cNGN'', ''100'', ''0x26'', ''USDT'', ''7'',
        ''100'', ''7'', ''0xbb'', ''UniswapV3Pool'', ''0'', ''21000'', ''1'']"

definition sample_ledger :: "string list" where
  "sample_ledger =
     [''transaction_hash,block_number,timestamp'',
      sample_row ''0x01'' ''2029-12-30 10:04'',
      sample_row ''0x02'' ''2030-01-02 09:15'']"

definition sample_ledger_august :: "string list" where
  "sample_ledger_august =
     [''transaction_hash,block_number,timestamp'',
      sample_row ''0x03'' ''2025-08-07 16:40'',
      sample_row ''0x04'' ''2025-08-05 10:04'']"

section \<open>The pipeline run\<close>

subsection \<open>Writing and reading the ledger file\<close>

text \<open>
  \<open>escapeCsv\<close>, on the string form of a value; \<open>None\<close> is \<open>null\<close> or \<open>undefined\<close>.
\<close>

definition escapeCsv :: "string option \<Rightarrow> string" where
  "escapeCsv v =
     (case v of
        None \<Rightarrow> []
      | Some stringValue \<Rightarrow>
          if CHR '','' \<in> set stringValue \<or> CHR 0x22 \<in> set stringValue
             \<or> CHR 0x0A \<in> set stringValue
          then [CHR 0x22]
               @ concat (map (\<lambda>c. if c = CHR 0x22 then [CHR 0x22, CHR 0x22] else [c]) stringValue)
               @ [CHR 0x22]
          else stringValue)"

text \<open>One line of the file: the escaped values of the columns, joined by commas.\<close>

definition csv_line :: "string option list \<Rightarrow> string" where
  "csv_line values = join '','' (map escapeCsv values)"

text \<open>
  The lines that \<open>readline\<close> delivers for a text: a line ends at a line feed, at a
  carriage return followed by a line feed, or at a lone carriage return; what follows
  the last line end is a line only when it is not empty.
\<close>

fun lines_loop :: "string \<Rightarrow> string \<Rightarrow> string list" where
  "lines_loop cur [] = (if cur = [] then [] else [cur])"
| "lines_loop cur (c # rest) =
     (if c = CHR 0x0A then cur # lines_loop [] rest
      else if c = CHR 0x0D then
        (case rest of
           [] \<Rightarrow> cur # lines_loop [] rest
         | d # rest' \<Rightarrow>
             if d = CHR 0x0A then cur # lines_loop [] rest' else cur # lines_loop [] rest)
      else lines_loop (cur @ [c]) rest)"

definition readline_lines :: "string \<Rightarrow> string list" where
  "readline_lines text = lines_loop [] text"

text \<open>
  The ledger file is kept as the list of its lines; every write ends with a line feed.
  \<open>fs.appendFileSync(file, csvLines.join('\n') + '\n')\<close> adds the lines of that text.
\<close>

definition append_lines :: "string list \<Rightarrow> string list \<Rightarrow> string list" where
  "append_lines ledger csvLines = ledger @ readline_lines (join [CHR 0x0A] csvLines @ [CHR 0x0A])"

subsection \<open>Collecting a batch of new hashes\<close>

text \<open>
  One response of the transfer-list endpoint: the \<open>transaction_hash\<close> fields of its
  items and the continuation token, if any.
\<close>

record 'p page =
  page_items :: "string option list"
  page_next :: "'p option"

definition PROCESS_BATCH_SIZE :: nat where
  "PROCESS_BATCH_SIZE = 1000"

definition EXECUTION_CONCURRENCY :: nat where
  "EXECUTION_CONCURRENCY = 50"

text \<open>
  The inner \<open>while (currentBatchHashes.length < PROCESS_BATCH_SIZE)\<close>. The responses that
  the upstream gives to the successive requests are given as a list, and the loop hands
  back those it has not used; when the list is used up the loop is cut off there. A
  response without continuation token leaves \<open>nextPageParams\<close> as it was.
\<close>

fun collect_batch :: "string set \<Rightarrow> string list \<Rightarrow> 'p option \<Rightarrow> 'p page list
    \<Rightarrow> string set \<times> string list \<times> 'p option \<times> 'p page list" where
  "collect_batch seenHashes batch nextPageParams [] = (seenHashes, batch, nextPageParams, [])"
| "collect_batch seenHashes batch nextPageParams (listResponse # responses) =
     (if length batch < PROCESS_BATCH_SIZE then
        (if length (page_items listResponse) > 0 then
           (case collect_items seenHashes batch (page_items listResponse) of
              (seenHashes', batch') \<Rightarrow>
                (case page_next listResponse of
                   Some params \<Rightarrow> collect_batch seenHashes' batch' (Some params) responses
                 | None \<Rightarrow> (seenHashes', batch', nextPageParams, responses)))
         else (seenHashes, batch, nextPageParams, responses))
      else (seenHashes, batch, nextPageParams, listResponse # responses))"

subsection \<open>Processing a batch\<close>

text \<open>\<open>for (i = 0; i < length; i += EXECUTION_CONCURRENCY)\<close> with \<open>slice(i, i + 50)\<close>.\<close>

function chunks :: "'a list \<Rightarrow> 'a list list" where
  "chunks xs =
     (if xs = [] then []
      else take EXECUTION_CONCURRENCY xs # chunks (drop EXECUTION_CONCURRENCY xs))"
  by pat_completeness auto
termination
  by (relation "measure length") (auto simp: EXECUTION_CONCURRENCY_def)

declare chunks.simps [simp del]

text \<open>
  What a run is given besides the ledger: \<open>attempt hash k\<close>, the outcome of the call of
  \<open>processSingleTransaction(hash)\<close> made after \<open>k\<close> earlier calls for that hash; the random
  values; and \<open>columns\<close>, the values of a record under the headers of the file, in the
  order of the headers, as strings.
\<close>

definition process_chunk :: "(string \<Rightarrow> nat \<Rightarrow> 'r list outcome) \<Rightarrow> (string \<Rightarrow> nat \<Rightarrow> rat)
    \<Rightarrow> string list \<Rightarrow> 'r list" where
  "process_chunk attempt rnd chunk =
     validResults (map (\<lambda>hash. fst (process_with_retry (attempt hash) (rnd hash))) chunk)"

text \<open>
  The state of a run: the index, the continuation token, the count of records, the
  ledger file, and, as a history of the run, the records it has appended.
\<close>

record ('p, 'r) run =
  seenHashes :: "string set"
  nextPageParams :: "'p option"
  recordsSaved :: nat
  ledger :: "string list"
  appended :: "'r list"

text \<open>The body of the loop over the chunks: one batched write for each chunk.\<close>

definition save_chunk :: "('r \<Rightarrow> string option list) \<Rightarrow> ('p, 'r) run \<Rightarrow> 'r list \<Rightarrow> ('p, 'r) run" where
  "save_chunk columns st results =
     (if length results > 0 then
        st \<lparr> ledger := append_lines (ledger st) (map (\<lambda>record. csv_line (columns record)) results),
             recordsSaved := recordsSaved st + length results,
             appended := appended st @ results \<rparr>
      else st)"

definition process_batch :: "(string \<Rightarrow> nat \<Rightarrow> 'r list outcome) \<Rightarrow> (string \<Rightarrow> nat \<Rightarrow> rat)
    \<Rightarrow> ('r \<Rightarrow> string option list) \<Rightarrow> ('p, 'r) run \<Rightarrow> string list \<Rightarrow> ('p, 'r) run" where
  "process_batch attempt rnd columns st batch =
     foldl (\<lambda>s chunk. save_chunk columns s (process_chunk attempt rnd chunk)) st (chunks batch)"

text \<open>
  The outer \<open>while (recordsSaved < TARGET_COUNT)\<close>, for at most \<open>fuel\<close> rounds.
  \<open>stop_when_empty\<close> is the \<open>break\<close> on an empty batch, which only the per-transfer
  pipeline has.
\<close>

fun pipeline_loop :: "nat \<Rightarrow> nat \<Rightarrow> bool \<Rightarrow> (string \<Rightarrow> nat \<Rightarrow> 'r list outcome)
    \<Rightarrow> (string \<Rightarrow> nat \<Rightarrow> rat) \<Rightarrow> ('r \<Rightarrow> string option list)
    \<Rightarrow> ('p, 'r) run \<Rightarrow> 'p page list \<Rightarrow> ('p, 'r) run" where
  "pipeline_loop 0 target stop_when_empty attempt rnd columns st responses = st"
| "pipeline_loop (Suc fuel) target stop_when_empty attempt rnd columns st responses =
     (if recordsSaved st < target then
        (case collect_batch (seenHashes st) [] (nextPageParams st) responses of
           (seen', batch, params', responses') \<Rightarrow>
             (let st1 = st \<lparr> seenHashes := seen', nextPageParams := params' \<rparr> in
              if stop_when_empty \<and> length batch = 0 then st1
              else
                (let st2 = process_batch attempt rnd columns st1 batch in
                 if recordsSaved st2 \<ge> target then st2
                 else if nextPageParams st2 = None \<and> length batch < PROCESS_BATCH_SIZE then st2
                 else pipeline_loop fuel target stop_when_empty attempt rnd columns st2 responses')))
      else st)"

text \<open>
  The file as \<open>pipelineBatch\<close> finds it after its first step: created with the header
  line when it was missing (\<open>None\<close>).
\<close>

definition initial_file :: "string list \<Rightarrow> string list option \<Rightarrow> string list" where
  "initial_file headers file = (case file of None \<Rightarrow> [join '','' headers] | Some ls \<Rightarrow> ls)"

text \<open>\<open>pipelineBatch\<close>: the index is loaded from the file, and the loop runs.\<close>

definition pipelineBatch :: "nat \<Rightarrow> nat \<Rightarrow> bool \<Rightarrow> string list
    \<Rightarrow> (string \<Rightarrow> nat \<Rightarrow> 'r list outcome) \<Rightarrow> (string \<Rightarrow> nat \<Rightarrow> rat)
    \<Rightarrow> ('r \<Rightarrow> string option list) \<Rightarrow> string list option \<Rightarrow> 'p page list \<Rightarrow> ('p, 'r) run" where
  "pipelineBatch fuel target stop_when_empty headers attempt rnd columns file responses =
     (let existing = initial_file headers file;
          seen = loadExistingHashes existing
      in pipeline_loop fuel target stop_when_empty attempt rnd columns
           \<lparr> seenHashes = seen, nextPageParams = None, recordsSaved = card seen,
             ledger = existing, appended = [] \<rparr>
           responses)"

text \<open>
  The outcome of one call of \<open>processSingleTransaction\<close> in either pipeline, from the
  upstream responses of that call; \<open>message\<close> gives the \<open>message\<close> of a thrown error.
\<close>

definition attempt_ledger :: "(js_error \<Rightarrow> string option) \<Rightarrow> (string \<Rightarrow> nat \<Rightarrow> AssetChainTxV2 option)
    \<Rightarrow> string \<Rightarrow> nat \<Rightarrow> LedgerRow list outcome" where
  "attempt_ledger message details hash k =
     (case processSingleTransaction hash (details hash k) of
        Inl e \<Rightarrow> Threw (message e)
      | Inr rows \<Rightarrow> Returned rows)"


subsection \<open>Properties of a run, as specifications\<close>

text \<open>
  Every record that a call for a hash returns carries that hash; a call returns at most
  one record.
\<close>

definition hash_tagged :: "('r \<Rightarrow> string) \<Rightarrow> (string \<Rightarrow> nat \<Rightarrow> 'r list outcome) \<Rightarrow> bool" where
  "hash_tagged hash_of attempt =
     (\<forall>h k rows. attempt h k = Returned rows \<longrightarrow> (\<forall>r \<in> set rows. hash_of r = h))"

definition single_row :: "(string \<Rightarrow> nat \<Rightarrow> 'r list outcome) \<Rightarrow> bool" where
  "single_row attempt = (\<forall>h k rows. attempt h k = Returned rows \<longrightarrow> length rows \<le> 1)"

text \<open>
  A hash that the resume scan reads back as written: it begins with \<open>0x\<close> and holds no
  comma, double quote or line end, so that it is neither quoted nor split.
\<close>

definition plain_hash :: "string \<Rightarrow> bool" where
  "plain_hash h =
     (startsWith h ''0x'' \<and> CHR '','' \<notin> set h \<and> CHR 0x22 \<notin> set h
      \<and> CHR 0x0A \<notin> set h \<and> CHR 0x0D \<notin> set h)"

text \<open>A text without line end, which \<open>readline\<close> gives back as one line.\<close>

definition one_line :: "string \<Rightarrow> bool" where
  "one_line s = (CHR 0x0A \<notin> set s \<and> CHR 0x0D \<notin> set s)"




subsection \<open>Sample runs\<close>

definition sample_message :: "js_error \<Rightarrow> string option" where
  "sample_message e = None"

definition sample_rnd :: "string \<Rightarrow> nat \<Rightarrow> rat" where
  "sample_rnd hash k = 0"

text \<open>An upstream that answers every detail request with the same swap.\<close>

definition sample_upstream :: "string \<Rightarrow> nat \<Rightarrow> AssetChainTxV2 option" where
  "sample_upstream hash k = Some (sample_details [sample_cngn, sample_usdt])"


text \<open>A ledger file of one column, the hash.\<close>

definition hash_column :: "LedgerRow \<Rightarrow> string option list" where
  "hash_column record = [Some (row_transaction_hash record)]"


definition sample_page :: "string \<Rightarrow> nat page" where
  "sample_page hash = \<lparr> page_items = [Some hash], page_next = None \<rparr>"

section \<open>Properties of the dedup index\<close>

lemma on_lines_False:
  "on_lines False hashes ls = hashes \<union> {h. \<exists>l \<in> set ls. line_hash l = Some h}"
  by (induction ls arbitrary: hashes) (auto split: option.splits)

lemma loadExistingHashes_eq:
  "loadExistingHashes ls = {h. \<exists>l \<in> set (drop 1 ls). line_hash l = Some h}"
  by (cases ls) (simp_all add: loadExistingHashes_def on_lines_False)

lemma split_on_nonempty: "split_on c s \<noteq> []"
  by (induction s) (auto split: list.splits)

lemma split_on_hd: "hd (split_on c s) = takeWhile (\<lambda>x. x \<noteq> c) s"
  using split_on_nonempty [of c] by (induction s) (auto split: list.splits)

lemma line_hash_Some:
  "line_hash l = Some h \<longleftrightarrow>
     h = strip_quotes (hd (split_on CHR '','' l)) \<and> startsWith h ''0x''"
  by (auto simp: line_hash_def Let_def split_on_nonempty startsWith_def strip_quotes_def)





section \<open>The retry policy\<close>

lemma retry_loop_sleeps_le: "length (snd (retry_loop retries attempt rnd k)) \<le> retries"
  by (induction retries arbitrary: k) (simp_all add: split_beta split: outcome.splits)

lemma retry_loop_all_retryable:
  "(\<forall>j < retries. \<exists>m. attempt (k + j) = Threw m \<and>
       (message_includes m ''429'' \<or> message_includes m ''500''))
   \<Longrightarrow> fst (retry_loop retries attempt rnd k) = None
       \<and> length (snd (retry_loop retries attempt rnd k)) = retries"
proof (induction retries arbitrary: k)
  case 0
  then show ?case by simp
next
  case (Suc retries)
  from Suc.prems obtain m where m: "attempt k = Threw m"
    "message_includes m ''429'' \<or> message_includes m ''500''"
    by force
  have "\<forall>j < retries. \<exists>m. attempt (Suc k + j) = Threw m \<and>
       (message_includes m ''429'' \<or> message_includes m ''500'')"
    using Suc.prems by (metis Suc_less_eq add_Suc_shift)
  from Suc.IH [OF this] m show ?case
    by (auto simp: split_beta)
qed

text \<open>
  Claim C9. With a retry left: a failure whose message contains \<open>429\<close> sleeps
  \<open>2000 + random * 1000\<close> ms (between 2000 and 3000 for a random value in [0, 1)) and
  goes on with one retry less; a failure whose message contains \<open>500\<close> sleeps the fixed,
  longer 3000 ms and goes on with one retry less; any other failure ends the item at
  once with \<open>null\<close> and no sleep; a returned value ends it with that value. The budget is
  3 calls: three retryable failures in a row give \<open>null\<close>. A \<open>null\<close> result adds no
  row to the results of its chunk and the other items of the chunk are kept.
\<close>

theorem retry_policy:
  "(message_includes m ''429'' \<and> attempt k = Threw m \<longrightarrow>
      retry_loop (Suc retries) attempt rnd k =
        (fst (retry_loop retries attempt rnd (Suc k)),
         (2000 + rnd k * 1000) # snd (retry_loop retries attempt rnd (Suc k)))
      \<and> (0 \<le> rnd k \<and> rnd k < 1 \<longrightarrow> 2000 \<le> 2000 + rnd k * 1000 \<and> 2000 + rnd k * 1000 < 3000))
   \<and> (\<not> message_includes m ''429'' \<and> message_includes m ''500'' \<and> attempt k = Threw m \<longrightarrow>
      retry_loop (Suc retries) attempt rnd k =
        (fst (retry_loop retries attempt rnd (Suc k)),
         3000 # snd (retry_loop retries attempt rnd (Suc k))))
   \<and> (\<not> message_includes m ''429'' \<and> \<not> message_includes m ''500'' \<and> attempt k = Threw m \<longrightarrow>
      retry_loop (Suc retries) attempt rnd k = (None, []))
   \<and> (attempt k = Returned v \<longrightarrow> retry_loop (Suc retries) attempt rnd k = (Some v, []))
   \<and> ((\<forall>j < 3. \<exists>e. attempt j = Threw e \<and>
          (message_includes e ''429'' \<or> message_includes e ''500'')) \<longrightarrow>
        fst (process_with_retry attempt rnd) = None
        \<and> length (snd (process_with_retry attempt rnd)) = 3)
   \<and> length (snd (process_with_retry attempt rnd)) \<le> 3
   \<and> validResults (before @ None # after) = validResults before @ validResults after"
proof -
  have a: "(\<forall>j < 3. \<exists>e. attempt j = Threw e \<and>
          (message_includes e ''429'' \<or> message_includes e ''500'')) \<longrightarrow>
        fst (process_with_retry attempt rnd) = None
        \<and> length (snd (process_with_retry attempt rnd)) = 3"
    using retry_loop_all_retryable [of 3 attempt 0 rnd]
    by (simp add: process_with_retry_def)
  have b: "length (snd (process_with_retry attempt rnd)) \<le> 3"
    unfolding process_with_retry_def by (rule retry_loop_sleeps_le)
  have c: "validResults (before @ None # after) = validResults before @ validResults after"
    by (induction before rule: validResults.induct) simp_all
  have d: "0 \<le> rnd k \<and> rnd k < 1 \<longrightarrow> 2000 \<le> 2000 + rnd k * 1000 \<and> 2000 + rnd k * 1000 < 3000"
    by auto
  show ?thesis
    using a b c d by (simp add: split_beta)
qed

theorem retry_policy_witness:
  "retry_loop 3 (\<lambda>j. if j = 0 then Threw (Some ''status 429'') else Returned [1::nat])
      (\<lambda>j. 1 / 2) 0 = (Some [1], [2500])
   \<and> retry_loop 3 (\<lambda>j. if j = 0 then Threw (Some ''status 500'') else Returned [1::nat])
      (\<lambda>j. 1 / 2) 0 = (Some [1], [3000])
   \<and> retry_loop 3 (\<lambda>j. Threw (Some ''Network Error'') :: nat list outcome) (\<lambda>j. 1 / 2) 0
        = (None, [])
   \<and> process_with_retry (\<lambda>j. Threw (Some ''status 429'') :: nat list outcome) (\<lambda>j. 1 / 2)
        = (None, [2500, 2500, 2500])
   \<and> validResults [Some [1::nat], None, Some [2]] = [1, 2]"
proof -
  let ?a1 = "\<lambda>j::nat. if j = 0 then Threw (Some ''status 429'') else Returned [1::nat]"
  let ?a2 = "\<lambda>j::nat. if j = 0 then Threw (Some ''status 500'') else Returned [1::nat]"
  let ?a3 = "\<lambda>j::nat. Threw (Some ''Network Error'') :: nat list outcome"
  let ?a4 = "\<lambda>j::nat. Threw (Some ''status 429'') :: nat list outcome"
  let ?r = "\<lambda>j::nat. 1 / 2 :: rat"
  have i429: "message_includes (Some ''status 429'') ''429''"
    and i500: "message_includes (Some ''status 500'') ''500''"
    and n429: "\<not> message_includes (Some ''status 500'') ''429''"
    and o429: "\<not> message_includes (Some ''Network Error'') ''429''"
    and o500: "\<not> message_includes (Some ''Network Error'') ''500''"
    by (simp_all add: message_includes_def)
  have ret: "retry_loop 2 ?a1 ?r 1 = (Some [1], [])" "retry_loop 2 ?a2 ?r 1 = (Some [1], [])"
    by (simp_all add: numeral_2_eq_2)
  have w1: "retry_loop 3 ?a1 ?r 0 = (Some [1], [2500])"
    using retry_policy [of "Some ''status 429''" ?a1 0 2 ?r] i429 ret
    by (simp add: numeral_3_eq_3 numeral_2_eq_2)
  have w2: "retry_loop 3 ?a2 ?r 0 = (Some [1], [3000])"
    using retry_policy [of "Some ''status 500''" ?a2 0 2 ?r] i500 n429 ret
    by (simp add: numeral_3_eq_3 numeral_2_eq_2)
  have w3: "retry_loop 3 ?a3 ?r 0 = (None, [])"
    using retry_policy [of "Some ''Network Error''" ?a3 0 2 ?r] o429 o500
    by (simp add: numeral_3_eq_3 numeral_2_eq_2)
  have w4: "process_with_retry ?a4 ?r = (None, [2500, 2500, 2500])"
    using i429 by (simp add: process_with_retry_def numeral_3_eq_3)
  have w5: "validResults [Some [1::nat], None, Some [2]] = [1, 2]"
    using retry_policy [of None ?a3 0 0 ?r _ "[Some [1::nat]]" "[Some [2]]"] by simp
  from w1 w2 w3 w4 w5 show ?thesis by blast
qed

section \<open>The amount decoder: value and failures\<close>

lemma below_ten:
  fixes n :: nat
  assumes "n < 10"
    and "P 0" "P 1" "P 2" "P 3" "P 4" "P 5" "P 6" "P 7" "P 8" "P 9"
  shows "P n"
proof -
  from assms(1) have "n \<in> {0, 1, 2, 3, 4, 5, 6, 7, 8, 9}"
    unfolding insert_iff empty_iff by arith
  with assms(2-) show ?thesis by auto
qed

lemma cd: "char_digit CHR ''0'' = Some 0" "char_digit CHR ''1'' = Some 1" "char_digit CHR ''2'' = Some 2"
  "char_digit CHR ''3'' = Some 3" "char_digit CHR ''4'' = Some 4" "char_digit CHR ''5'' = Some 5"
  "char_digit CHR ''6'' = Some 6" "char_digit CHR ''7'' = Some 7" "char_digit CHR ''8'' = Some 8"
  "char_digit CHR ''9'' = Some 9"
  by (simp_all add: char_digit_def)











lemma index_of_Some: "index_of c s = Some i \<Longrightarrow> i < length s \<and> s ! i = c"
  by (induction s arbitrary: i) (auto split: if_splits)

lemma nth_upper_digits:
  "n < 10 \<Longrightarrow> ''0123456789ABCDEFGHIJKLMNOPQRSTUVWXYZ'' ! n = ''0123456789'' ! n"
  "n < 10 \<Longrightarrow> ''0123456789abcdefghijklmnopqrstuvwxyz'' ! n = ''0123456789'' ! n"
  by (erule below_ten; simp)+

lemma is_digit_iff: "is_digit c \<longleftrightarrow> c \<in> set ''0123456789''"
proof
  assume "is_digit c"
  then obtain v where v: "char_digit c = Some v" "v < 10"
    by (auto simp: is_radix_digit_def split: option.splits)
  define lo where "lo = ''0123456789abcdefghijklmnopqrstuvwxyz''"
  define up where "up = ''0123456789ABCDEFGHIJKLMNOPQRSTUVWXYZ''"
  have "char_digit c = (case index_of c lo of None \<Rightarrow> index_of c up | Some v \<Rightarrow> Some v)"
    by (simp only: char_digit_def lo_def up_def)
  with v(1) have "index_of c lo = Some v \<or> index_of c up = Some v"
    by (auto split: option.splits)
  then have "lo ! v = c \<or> up ! v = c"
    using index_of_Some by blast
  then have "c = ''0123456789'' ! v"
    using nth_upper_digits [OF v(2)] unfolding lo_def up_def by auto
  moreover have "''0123456789'' ! v \<in> set ''0123456789''"
    using v(2) by (rule below_ten) simp_all
  ultimately show "c \<in> set ''0123456789''"
    by simp
next
  assume "c \<in> set ''0123456789''"
  then show "is_digit c"
    by (auto simp: is_radix_digit_def cd)
qed

lemma digit_props:
  "is_digit c \<Longrightarrow> \<not> is_space c \<and> c \<noteq> CHR ''-'' \<and> c \<noteq> CHR ''+'' \<and> c \<noteq> CHR ''I'' \<and> c \<noteq> CHR ''.''"
  by (auto simp: is_digit_iff is_space_def)


















lemma trim_digits:
  assumes "all_digits 10 raw" shows "trim raw = raw"
proof -
  from assms have ne: "raw \<noteq> []" and ds: "list_all is_digit raw"
    by (simp_all add: all_digits_def)
  then have h: "\<not> is_space (hd raw)" and l: "\<not> is_space (last raw)"
    using digit_props by (auto simp: list_all_iff)
  from ne h have a: "dropWhile is_space raw = raw" by (cases raw) auto
  from ne l have b: "dropWhile is_space (rev raw) = rev raw"
    by (cases raw rule: rev_cases) auto
  show ?thesis by (simp add: trim_def a b)
qed

lemma BigInt_digits:
  "all_digits 10 raw \<Longrightarrow> BigInt raw = Inr (int (digits_value 10 raw))"
  by (simp add: BigInt_def trim_digits) (simp add: all_digits_def)









section \<open>The USD valuation\<close>

lemma decodeAmount_ok:
  "str_truthy v \<longrightarrow> \<not> isl (BigInt (the v)) \<Longrightarrow> \<exists>x. decodeAmount dec dflt v ds = Inr x"
  by (cases "BigInt (the v)") (auto simp: decodeAmount_def Let_def)

lemma item_step_ok:
  assumes "str_truthy (total_value item) \<longrightarrow> \<not> isl (BigInt (the (total_value item)))"
  shows "\<exists>t'. item_step tr t item = Inr t'
           \<and> usdValue t' = (if is_stable item then amount_sliced item else usdValue t)
           \<and> cngnAmt t' = (if is_cngn item then js_add (cngnAmt t) (amount_sliced item)
                            else cngnAmt t)"
proof -
  from decodeAmount_ok [OF assms]
  obtain x where x: "decodeAmount decode_sliced ''18'' (total_value item) (token_decimals item) = Inr x"
    by blast
  show ?thesis
    by (cases x) (simp_all add: item_step_def x amount_sliced_def Let_def is_stable_def)
qed

lemma items_loop_ok:
  assumes "amounts_parse items"
  shows "\<exists>t'. items_loop tr t items = Inr t'
           \<and> usdValue t' = (if filter is_stable items = [] then usdValue t
                             else amount_sliced (last (filter is_stable items)))
           \<and> cngnAmt t' = foldl js_add (cngnAmt t) (map amount_sliced (filter is_cngn items))"
  using assms
proof (induction items arbitrary: t)
  case Nil
  then show ?case by simp
next
  case (Cons item items)
  from Cons.prems have p: "str_truthy (total_value item) \<longrightarrow> \<not> isl (BigInt (the (total_value item)))"
    and rest: "amounts_parse items"
    by (simp_all add: amounts_parse_def)
  from item_step_ok [OF p, of tr t] obtain t1 where t1: "item_step tr t item = Inr t1"
    "usdValue t1 = (if is_stable item then amount_sliced item else usdValue t)"
    "cngnAmt t1 = (if is_cngn item then js_add (cngnAmt t) (amount_sliced item) else cngnAmt t)"
    by blast
  from Cons.IH [OF rest, of t1] obtain t' where t': "items_loop tr t1 items = Inr t'"
    "usdValue t' = (if filter is_stable items = [] then usdValue t1
                             else amount_sliced (last (filter is_stable items)))"
    "cngnAmt t' = foldl js_add (cngnAmt t1) (map amount_sliced (filter is_cngn items))"
    by blast
  show ?case
    by (simp add: t1 t')
qed

lemma processSingleTransaction_usd:
  assumes "amounts_parse (token_transfers details)" "list_ex is_cngn (token_transfers details)"
  shows "\<exists>row. processSingleTransaction hash (Some details) = Inr [row]
           \<and> row_transaction_hash row = hash
           \<and> row_usd_value row = usd_per_transaction (token_transfers details)"
proof -
  from items_loop_ok [OF assms(1), of "tx_from_hash details" initial_tally]
  obtain t' where t': "items_loop (tx_from_hash details) initial_tally (token_transfers details) = Inr t'"
    "usdValue t' = (if filter is_stable (token_transfers details) = [] then Num 0
                    else amount_sliced (last (filter is_stable (token_transfers details))))"
    "cngnAmt t' = foldl js_add (Num 0) (map amount_sliced (filter is_cngn (token_transfers details)))"
    by (auto simp: initial_tally_def)
  have "usdValue (apply_fallback t') = usd_per_transaction (token_transfers details)"
    by (simp add: apply_fallback_def usd_per_transaction_def Let_def t'(2,3))
  with assms(2) t'(1) show ?thesis
    by (simp add: processSingleTransaction_def Let_def)
qed





lemma sample_is_cngn:
  "is_cngn sample_cngn" "is_cngn sample_cngn_rated" "is_cngn sample_cngn_malformed"
  "\<not> is_cngn sample_usdc" "\<not> is_cngn sample_usdt"
  by (simp_all add: is_cngn_def sample_cngn_def sample_cngn_rated_def sample_cngn_malformed_def
      sample_usdc_def sample_usdt_def CNGN_ADDRESS_def toLowerCase_def to_lower_char_def)


lemma sample_digits:
  "all_digits 10 ''1000000''" "all_digits 10 ''2000000''" "all_digits 10 ''2500000''"
  "digits_value 10 ''1000000'' = 1000000" "digits_value 10 ''2000000'' = 2000000"
  "digits_value 10 ''2500000'' = 2500000"
  "parseInt ''6'' = Some (int 6)"
  by (simp_all add: all_digits_def is_radix_digit_def char_digit_def digits_value_def
      parseInt_def is_space_def)


lemma sample_amounts_parse:
  "amounts_parse [sample_cngn, sample_usdt]" "amounts_parse [sample_cngn, sample_usdc]"
  "amounts_parse [sample_cngn_rated]"
  by (simp_all add: amounts_parse_def sample_cngn_def sample_cngn_rated_def sample_usdc_def
      sample_usdt_def BigInt_digits sample_digits)






section \<open>The VWAP series\<close>

lemma day_record_fst:
  "date (fst (day_record stats d l)) = toISODate d"
  "has_volume stats d \<Longrightarrow> vwap (fst (day_record stats d l)) = day_price stats d"
  "\<not> has_volume stats d \<Longrightarrow> vwap (fst (day_record stats d l)) = l
      \<and> volumeCngn (fst (day_record stats d l)) = Num 0
      \<and> volumeUsd (fst (day_record stats d l)) = Num 0"
  by (auto simp: day_record_def has_volume_def day_price_def Let_def split: option.splits)

lemma day_record_snd:
  "snd (day_record stats d l) = (if has_volume stats d then day_price stats d else l)"
  by (auto simp: day_record_def has_volume_def day_price_def Let_def split: option.splits)

lemma series_loop_unfold:
  "cur \<le> e \<Longrightarrow> cur < SAFETY_YEAR_LIMIT \<Longrightarrow>
     series_loop stats cur e l
       = fst (day_record stats cur l) # series_loop stats (cur + 1) e (snd (day_record stats cur l))"
  by (subst series_loop.simps) (simp add: split_beta)

lemma series_loop_stop:
  "\<not> (cur \<le> e \<and> cur < SAFETY_YEAR_LIMIT) \<Longrightarrow> series_loop stats cur e l = []"
  by (subst series_loop.simps) auto

lemma series_loop_dates:
  "map date (series_loop stats cur e l) = map toISODate [cur .. min e (SAFETY_YEAR_LIMIT - 1)]"
proof (induction stats cur e l rule: series_loop.induct)
  case (1 stats cur e l)
  show ?case
  proof (cases "cur \<le> e \<and> cur < SAFETY_YEAR_LIMIT")
    case True
    then have u: "[cur .. min e (SAFETY_YEAR_LIMIT - 1)]
                    = cur # [cur + 1 .. min e (SAFETY_YEAR_LIMIT - 1)]"
      by (simp add: upto_rec1)
    from True have "map date (series_loop stats (cur + 1) e (snd (day_record stats cur l)))
        = map toISODate [cur + 1 .. min e (SAFETY_YEAR_LIMIT - 1)]"
      using 1 [of "fst (day_record stats cur l)" "snd (day_record stats cur l)"]
      by simp
    with True show ?thesis
      by (simp add: series_loop_unfold u day_record_fst)
  next
    case False
    then have "[cur .. min e (SAFETY_YEAR_LIMIT - 1)] = []" by auto
    with False show ?thesis by (simp add: series_loop_stop)
  qed
qed

lemma series_loop_nth:
  "i < length (series_loop stats cur e l) \<Longrightarrow>
     series_loop stats cur e l ! i
       = fst (day_record stats (cur + int i) (last_before stats cur l i))"
proof (induction i arbitrary: cur l)
  case 0
  then have "cur \<le> e \<and> cur < SAFETY_YEAR_LIMIT"
    using series_loop_stop [of cur e stats l] by fastforce
  then show ?case by (simp add: series_loop_unfold)
next
  case (Suc i)
  then have c: "cur \<le> e \<and> cur < SAFETY_YEAR_LIMIT"
    using series_loop_stop [of cur e stats l] by fastforce
  with Suc.prems have "i < length (series_loop stats (cur + 1) e (snd (day_record stats cur l)))"
    by (simp add: series_loop_unfold)
  from Suc.IH [OF this] c show ?case
    by (simp add: series_loop_unfold add.assoc)
qed

lemma last_before_cases:
  "(\<exists>j<i. has_volume stats (cur + int j)
        \<and> (\<forall>k. j < k \<and> k < i \<longrightarrow> \<not> has_volume stats (cur + int k))
        \<and> last_before stats cur l i = day_price stats (cur + int j))
   \<or> ((\<forall>k<i. \<not> has_volume stats (cur + int k)) \<and> last_before stats cur l i = l)"
proof (induction i arbitrary: cur l)
  case 0
  then show ?case by simp
next
  case (Suc i)
  let ?l' = "snd (day_record stats cur l)"
  from Suc.IH [of "cur + 1" ?l']
  consider (found) j where "j < i" "has_volume stats (cur + 1 + int j)"
      "\<forall>k. j < k \<and> k < i \<longrightarrow> \<not> has_volume stats (cur + 1 + int k)"
      "last_before stats (cur + 1) ?l' i = day_price stats (cur + 1 + int j)"
    | (none) "\<forall>k<i. \<not> has_volume stats (cur + 1 + int k)"
      "last_before stats (cur + 1) ?l' i = ?l'"
    by blast
  then show ?case
  proof cases
    case found
    have sh: "cur + 1 + int k = cur + int (Suc k)" for k by simp
    have "\<forall>k. Suc j < k \<and> k < Suc i \<longrightarrow> \<not> has_volume stats (cur + int k)"
    proof (intro allI impI)
      fix k assume k: "Suc j < k \<and> k < Suc i"
      then obtain k' where k': "k = Suc k'" by (cases k) auto
      with k found(3) have "\<not> has_volume stats (cur + 1 + int k')" by auto
      then show "\<not> has_volume stats (cur + int k)" by (simp add: k' sh)
    qed
    with found(1,2,4) have "Suc j < Suc i \<and> has_volume stats (cur + int (Suc j))
        \<and> (\<forall>k. Suc j < k \<and> k < Suc i \<longrightarrow> \<not> has_volume stats (cur + int k))
        \<and> last_before stats cur l (Suc i) = day_price stats (cur + int (Suc j))"
      by (simp add: sh)
    then show ?thesis by blast
  next
    case none
    have rest: "\<not> has_volume stats (cur + int k)" if "0 < k" "k < Suc i" for k
    proof -
      from that obtain k' where k': "k = Suc k'" "k' < i" by (cases k) auto
      with none(1) have "\<not> has_volume stats (cur + 1 + int k')" by blast
      then show ?thesis by (simp add: k' add.assoc)
    qed
    show ?thesis
    proof (cases "has_volume stats cur")
      case True
      with none(2) have "last_before stats cur l (Suc i) = day_price stats (cur + int 0)"
        by (simp add: day_record_snd)
      with True rest have "0 < Suc i \<and> has_volume stats (cur + int 0)
        \<and> (\<forall>k. 0 < k \<and> k < Suc i \<longrightarrow> \<not> has_volume stats (cur + int k))
        \<and> last_before stats cur l (Suc i) = day_price stats (cur + int 0)"
        by simp
      then show ?thesis by blast
    next
      case False
      with none(2) have "last_before stats cur l (Suc i) = l"
        by (simp add: day_record_snd)
      moreover have "\<forall>k<Suc i. \<not> has_volume stats (cur + int k)"
      proof (intro allI impI)
        fix k assume "k < Suc i"
        then show "\<not> has_volume stats (cur + int k)"
          using False rest [of k] by (cases "k = 0") auto
      qed
      ultimately show ?thesis by blast
    qed
  qed
qed

lemma scan_snoc: "foldl on_line st (ls @ [l]) = on_line (foldl on_line st ls) l"
  by simp

lemma dust_iff: "\<not> isNaN x \<and> \<not> js_le x DUST \<longleftrightarrow> js_greater x DUST"
  by (cases x) (auto simp: isNaN_def js_le_def js_greater_def DUST_def)

lemma split_loop_length:
  "length (split_loop q cur res s) \<le> Suc (length res + length (filter (\<lambda>c. c = CHR '','') s))"
proof (induction q cur res s rule: split_loop.induct)
  case (1 inQuotes current result)
  then show ?case by simp
next
  case (2 inQuotes current result char rest)
  show ?case
  proof (cases "char = CHR 0x22")
    case True
    show ?thesis
    proof (cases rest)
      case Nil
      with True 2(1) show ?thesis by simp
    next
      case (Cons nxt rest')
      show ?thesis
      proof (cases "inQuotes \<and> nxt = CHR 0x22")
        case t: True
        with True Cons 2(2) [OF True Cons] show ?thesis by simp
      next
        case f: False
        with True Cons 2(3) [OF True Cons] show ?thesis by auto
      qed
    qed
  next
    case False
    with 2(4,5) show ?thesis by auto
  qed
qed

lemma trim_Nil_all_space:
  assumes "trim line = []" shows "list_all is_space line"
proof -
  define d where "d = dropWhile is_space line"
  from assms have "rev (dropWhile is_space (rev d)) = []"
    unfolding trim_def d_def .
  then have "dropWhile is_space (rev d) = []"
    by (simp only: rev_is_Nil_conv)
  then have sp: "\<forall>c \<in> set d. is_space c"
    by (simp only: dropWhile_eq_Nil_conv set_rev)
  have "d = []"
  proof (rule ccontr)
    assume ne: "d \<noteq> []"
    then have "\<not> is_space (hd d)"
      unfolding d_def by (rule hd_dropWhile)
    moreover from ne have "hd d \<in> set d" by (rule hd_in_set)
    ultimately show False using sp by blast
  qed
  then have "\<forall>c \<in> set line. is_space c"
    by (simp only: d_def dropWhile_eq_Nil_conv)
  then show ?thesis by (simp only: list_all_iff)
qed

lemma comma_not_space: "\<not> is_space CHR '',''"
  by (simp add: is_space_def)
lemma no_comma:
  assumes "list_all is_space line" shows "filter (\<lambda>c. c = CHR '','') line = []"
  using assms comma_not_space by (induction line) auto

lemma blank_line_short:
  assumes "trim line = []" shows "length (splitCsvLine line) \<le> 1"
proof -
  have "filter (\<lambda>c. c = CHR '','') line = []"
    using assms by (intro no_comma trim_Nil_all_space)
  with split_loop_length [of False "[]" "[]" line] show ?thesis
    by (simp add: splitCsvLine_def)
qed

lemma on_line_cases:
  "on_line st line =
     (if 18 \<le> length (splitCsvLine line) \<and> qualifies (splitCsvLine line)
      then add_trade st (parseDate (splitCsvLine line ! 2))
             (parseFloat (splitCsvLine line ! 14)) (parseFloat (splitCsvLine line ! 15))
      else st)"
proof (cases "18 \<le> length (splitCsvLine line)")
  case False
  then show ?thesis by (simp add: on_line_def Let_def)
next
  case True
  then have nb: "line \<noteq> [] \<and> trim line \<noteq> []"
    using blank_line_short [of line] by (auto simp: trim_def)
  have q: "qualifies (splitCsvLine line) \<longleftrightarrow>
      splitCsvLine line ! 6 = ''SwapRouter''
      \<and> ((splitCsvLine line ! 9 = ''USDT'' \<or> splitCsvLine line ! 9 = ''USDC''
           \<or> splitCsvLine line ! 12 = ''USDT'' \<or> splitCsvLine line ! 12 = ''USDC'')
          \<or> (splitCsvLine line ! 17 \<noteq> [] \<and> (str_includes (splitCsvLine line ! 17) ''USDT''
               \<or> str_includes (splitCsvLine line ! 17) ''USDC'')))
      \<and> \<not> (isNaN (parseFloat (splitCsvLine line ! 14)) \<or> isNaN (parseFloat (splitCsvLine line ! 15)))
      \<and> \<not> (js_le (parseFloat (splitCsvLine line ! 14)) DUST
            \<or> js_le (parseFloat (splitCsvLine line ! 15)) DUST)"
    using dust_iff [of "parseFloat (splitCsvLine line ! 14)"]
      dust_iff [of "parseFloat (splitCsvLine line ! 15)"]
    by (auto simp: qualifies_def through_router_def stablecoin_signal_def above_dust_def)
  show ?thesis
    using True nb unfolding q by (auto simp: on_line_def Let_def)
qed

lemma add_trade_fields:
  "minDate (add_trade st k c u) = (if minDate st = [] \<or> k < minDate st then k else minDate st)"
  "maxDate (add_trade st k c u) = (if maxDate st = [] \<or> k > maxDate st then k else maxDate st)"
  "dailyStats (add_trade st k c u) k
     = Some \<lparr> totalUsd = js_add (totalUsd (bucket st k)) u,
              totalCngn = js_add (totalCngn (bucket st k)) c \<rparr>"
  by (auto simp: add_trade_def Let_def bucket_def split: option.splits)

lemma sample_split:
  "splitCsvLine (sample_row ''0x01'' ''2029-12-30 10:04'')
     = [''0x01'', ''1'', ''2029-12-30 10:04'', ''ok'', ''0xaa'',
        ''0xec2b2209d710d4283b5d1e29441df0dbb9cee5c3'',
        ''SwapRouter'', ''swap'', ''0x79'', ''cNGN'', ''100'', ''0x26'', ''USDT'', ''7'',
        ''100'', ''7'', ''0xbb'', ''UniswapV3Pool'', ''0'', ''21000'', ''1'']"
  "splitCsvLine (sample_row ''0x02'' ''2030-01-02 09:15'')
     = [''0x02'', ''1'', ''2030-01-02 09:15'', ''ok'', ''0xaa'',
        ''0xec2b2209d710d4283b5d1e29441df0dbb9cee5c3'',
        ''SwapRouter'', ''swap'', ''0x79'', ''cNGN'', ''100'', ''0x26'', ''USDT'', ''7'',
        ''100'', ''7'', ''0xbb'', ''UniswapV3Pool'', ''0'', ''21000'', ''1'']"
  by (simp_all add: sample_row_def splitCsvLine_def)

lemma sample_parse:
  "parseFloat ''100'' = Num 100" "parseFloat ''7'' = Num 7"
  by (simp_all add: parseFloat_def is_space_def is_radix_digit_def char_digit_def
      digits_value_def exponent_part_def scale10_def)

lemma sample_qualifies:
  "qualifies (splitCsvLine (sample_row ''0x01'' ''2029-12-30 10:04''))"
  "qualifies (splitCsvLine (sample_row ''0x02'' ''2030-01-02 09:15''))"
  by (simp_all add: sample_split qualifies_def through_router_def stablecoin_signal_def
      above_dust_def sample_parse js_greater_def DUST_def)

lemma sample_dates:
  "parseDate ''2029-12-30 10:04'' = ''2029-12-30''"
  "parseDate ''2030-01-02 09:15'' = ''2030-01-02''"
  by (simp_all add: parseDate_def)

lemma sample_trade_dates: "trade_dates sample_ledger = [''2029-12-30'', ''2030-01-02'']"
  by (simp add: trade_dates_def sample_ledger_def sample_qualifies)
     (simp add: sample_split sample_dates)

lemma sample_order: "''2029-12-30'' < ''2030-01-02''"
  by simp

lemma sample_Date_parse:
  "Date_parse ''2029-12-30'' = Some 21913" "Date_parse ''2030-01-02'' = Some 21916"
  by (simp_all add: Date_parse_def is_radix_digit_def char_digit_def digits_value_def
      days_from_civil_def)

lemma SAFETY_YEAR_LIMIT_value: "SAFETY_YEAR_LIMIT = 21915"
  by (simp add: SAFETY_YEAR_LIMIT_def days_from_civil_def)

lemma sample_civil:
  "civil_from_days 21913 = (2029, 12, 30)" "civil_from_days 21914 = (2029, 12, 31)"
  by code_simp+

lemma sample_iso:
  "toISODate 21913 = ''2029-12-30''" "toISODate 21914 = ''2029-12-31''"
  by (simp_all add: toISODate_def sample_civil pad_number_def nat_toString.simps)

lemma scan_range:
  fixes ls :: "string list"
  defines "ks \<equiv> map (\<lambda>l. parseDate (splitCsvLine l ! 2))
       (filter (\<lambda>l. 18 \<le> length (splitCsvLine l) \<and> qualifies (splitCsvLine l)) ls)"
  assumes "[] \<notin> set ks"
  shows "(ks = [] \<longrightarrow> minDate (foldl on_line initial_scan ls) = []
                      \<and> maxDate (foldl on_line initial_scan ls) = [])
       \<and> (ks \<noteq> [] \<longrightarrow> minDate (foldl on_line initial_scan ls) = Min (set ks)
                      \<and> maxDate (foldl on_line initial_scan ls) = Max (set ks))"
  using assms(2) unfolding ks_def
proof (induction ls rule: rev_induct)
  case Nil
  then show ?case by (simp add: initial_scan_def)
next
  case (snoc l ls)
  define keys where "keys = map (\<lambda>l. parseDate (splitCsvLine l ! 2))
       (filter (\<lambda>l. 18 \<le> length (splitCsvLine l) \<and> qualifies (splitCsvLine l)) ls)"
  define st where "st = foldl on_line initial_scan ls"
  define k where "k = parseDate (splitCsvLine l ! 2)"
  define q where "q \<longleftrightarrow> 18 \<le> length (splitCsvLine l) \<and> qualifies (splitCsvLine l)"
  have keys': "map (\<lambda>l. parseDate (splitCsvLine l ! 2))
       (filter (\<lambda>l. 18 \<le> length (splitCsvLine l) \<and> qualifies (splitCsvLine l)) (ls @ [l]))
       = (if q then keys @ [k] else keys)"
    by (simp add: keys_def k_def q_def)
  have st': "foldl on_line initial_scan (ls @ [l])
       = (if q then add_trade st k (parseFloat (splitCsvLine l ! 14))
                     (parseFloat (splitCsvLine l ! 15)) else st)"
    using on_line_cases [of st l] by (simp add: st_def k_def q_def)
  from snoc.prems have "[] \<notin> set (if q then keys @ [k] else keys)"
    unfolding keys' .
  then have ne: "[] \<notin> set keys" and kne: "q \<longrightarrow> k \<noteq> []"
    by (auto split: if_splits)
  from snoc.IH ne
  have ih: "(keys = [] \<longrightarrow> minDate st = [] \<and> maxDate st = [])
       \<and> (keys \<noteq> [] \<longrightarrow> minDate st = Min (set keys) \<and> maxDate st = Max (set keys))"
    unfolding keys_def st_def by blast
  define K where "K = (if q then keys @ [k] else keys)"
  define S where "S = (if q then add_trade st k (parseFloat (splitCsvLine l ! 14))
                     (parseFloat (splitCsvLine l ! 15)) else st)"
  have "(K = [] \<longrightarrow> minDate S = [] \<and> maxDate S = [])
       \<and> (K \<noteq> [] \<longrightarrow> minDate S = Min (set K) \<and> maxDate S = Max (set K))"
  proof (cases q)
    case False
    with ih show ?thesis by (simp add: K_def S_def)
  next
    case True
    with kne have k: "k \<noteq> []" by simp
    show ?thesis
    proof (cases "keys = []")
      case e: True
      with ih have "minDate st = []" "maxDate st = []" by auto
      with True e show ?thesis
        by (simp add: K_def S_def add_trade_fields)
    next
      case ne': False
      with ih have m: "minDate st = Min (set keys)" "maxDate st = Max (set keys)"
        by auto
      have fin: "finite (set keys)" "set keys \<noteq> {}"
        using ne' by simp_all
      then have "Min (set keys) \<in> set keys" "Max (set keys) \<in> set keys"
        by simp_all
      with ne have nz: "minDate st \<noteq> []" "maxDate st \<noteq> []"
        unfolding m by metis+
      have mn: "Min (insert k (set keys)) = min k (Min (set keys))"
        by (rule Min_insert [OF fin])
      have mx: "Max (insert k (set keys)) = max k (Max (set keys))"
        by (rule Max_insert [OF fin])
      from True nz show ?thesis
        by (simp add: K_def S_def mn mx add_trade_fields) (auto simp: m min_def max_def)
    qed
  qed
  then show ?case unfolding keys' st' K_def S_def .
qed

lemma august_split:
  "splitCsvLine (sample_row ''0x03'' ''2025-08-07 16:40'')
     = [''0x03'', ''1'', ''2025-08-07 16:40'', ''ok'', ''0xaa'',
        ''0xec2b2209d710d4283b5d1e29441df0dbb9cee5c3'',
        ''SwapRouter'', ''swap'', ''0x79'', ''cNGN'', ''100'', ''0x26'', ''USDT'', ''7'',
        ''100'', ''7'', ''0xbb'', ''UniswapV3Pool'', ''0'', ''21000'', ''1'']"
  "splitCsvLine (sample_row ''0x04'' ''2025-08-05 10:04'')
     = [''0x04'', ''1'', ''2025-08-05 10:04'', ''ok'', ''0xaa'',
        ''0xec2b2209d710d4283b5d1e29441df0dbb9cee5c3'',
        ''SwapRouter'', ''swap'', ''0x79'', ''cNGN'', ''100'', ''0x26'', ''USDT'', ''7'',
        ''100'', ''7'', ''0xbb'', ''UniswapV3Pool'', ''0'', ''21000'', ''1'']"
  by (simp_all add: sample_row_def splitCsvLine_def)

lemma august_qualifies:
  "qualifies (splitCsvLine (sample_row ''0x03'' ''2025-08-07 16:40''))"
  "qualifies (splitCsvLine (sample_row ''0x04'' ''2025-08-05 10:04''))"
  by (simp_all add: august_split qualifies_def through_router_def stablecoin_signal_def
      above_dust_def sample_parse js_greater_def DUST_def)

lemma august_trade_dates: "trade_dates sample_ledger_august = [''2025-08-07'', ''2025-08-05'']"
  by (simp add: trade_dates_def sample_ledger_august_def august_qualifies)
     (simp add: august_split parseDate_def)

lemma august_Date_parse:
  "Date_parse ''2025-08-05'' = Some 20305" "Date_parse ''2025-08-07'' = Some 20307"
  by (simp_all add: Date_parse_def is_radix_digit_def char_digit_def digits_value_def
      days_from_civil_def)

lemma august_civil:
  "civil_from_days 20305 = (2025, 8, 5)" "civil_from_days 20306 = (2025, 8, 6)"
  "civil_from_days 20307 = (2025, 8, 7)"
  by code_simp+

lemma august_iso:
  "toISODate 20305 = ''2025-08-05''" "toISODate 20306 = ''2025-08-06''"
  "toISODate 20307 = ''2025-08-07''"
  by (simp_all add: toISODate_def august_civil pad_number_def nat_toString.simps)

lemma august_min_max:
  "Min (set [''2025-08-07'', ''2025-08-05'']) = ''2025-08-05''"
  "Max (set [''2025-08-07'', ''2025-08-05'']) = ''2025-08-07''"
  by simp_all

lemma sample_min_max:
  "Min (set [''2029-12-30'', ''2030-01-02'']) = ''2029-12-30''"
  "Max (set [''2029-12-30'', ''2030-01-02'']) = ''2030-01-02''"
  by simp_all

lemma upto_august: "[20305 .. 20307] = [20305, 20306, 20307::int]"
  by (simp add: upto_rec1)

lemma upto_sample: "[21913 .. 21914] = [21913, 21914::int]"
  by (simp add: upto_rec1)

lemma scan_ledger_range:
  assumes "trade_dates lines \<noteq> []" "[] \<notin> set (trade_dates lines)"
  shows "minDate (scan_ledger lines) = Min (set (trade_dates lines))"
    and "maxDate (scan_ledger lines) = Max (set (trade_dates lines))"
  using scan_range [of "drop 1 lines"] assms
  by (simp_all add: scan_ledger_def trade_dates_def)

lemma vwap_dates:
  assumes "trade_dates lines \<noteq> []" "[] \<notin> set (trade_dates lines)"
    and "Date_parse (Min (set (trade_dates lines))) = Some a"
    and "Date_parse (Max (set (trade_dates lines))) = Some b"
  shows "\<exists>out. calculateVWAP lines = Some out
           \<and> map date out = map toISODate [a .. min b (SAFETY_YEAR_LIMIT - 1)]"
proof -
  have "Min (set (trade_dates lines)) \<in> set (trade_dates lines)"
    using assms(1) by simp
  with assms(2) have "Min (set (trade_dates lines)) \<noteq> []" by metis
  then show ?thesis
    using assms
    by (simp add: calculateVWAP_def generate_series_def scan_ledger_range series_loop_dates)
qed

text \<open>
  Claim C6. A ledger row (a line with at least the 18 columns the builder reads) adds
  its amounts to the bucket of its date exactly when it went through the swap router,
  carries a stablecoin signal and has both amounts above the dust threshold; any other
  row leaves the aggregation as it was.
\<close>

theorem trade_qualification:
  assumes "18 \<le> length (splitCsvLine line)"
  shows "(qualifies (splitCsvLine line) \<longrightarrow>
            on_line st line
              = add_trade st (parseDate (splitCsvLine line ! 2))
                  (parseFloat (splitCsvLine line ! 14)) (parseFloat (splitCsvLine line ! 15))
            \<and> dailyStats (on_line st line) (parseDate (splitCsvLine line ! 2))
              = Some \<lparr> totalUsd = js_add (totalUsd (bucket st (parseDate (splitCsvLine line ! 2))))
                                     (parseFloat (splitCsvLine line ! 15)),
                       totalCngn = js_add (totalCngn (bucket st (parseDate (splitCsvLine line ! 2))))
                                      (parseFloat (splitCsvLine line ! 14)) \<rparr>)
       \<and> (\<not> qualifies (splitCsvLine line) \<longrightarrow> on_line st line = st)"
  using assms by (simp add: on_line_cases add_trade_fields)

theorem trade_qualification_witness:
  "18 \<le> length (splitCsvLine (sample_row ''0x01'' ''2029-12-30 10:04''))
   \<and> qualifies (splitCsvLine (sample_row ''0x01'' ''2029-12-30 10:04''))
   \<and> dailyStats (on_line initial_scan (sample_row ''0x01'' ''2029-12-30 10:04'')) ''2029-12-30''
       = Some \<lparr> totalUsd = Num 7, totalCngn = Num 100 \<rparr>
   \<and> 18 \<le> length (splitCsvLine '',,,,,,,,,,,,,,,,,'')
   \<and> \<not> qualifies (splitCsvLine '',,,,,,,,,,,,,,,,,'')
   \<and> on_line initial_scan '',,,,,,,,,,,,,,,,,'' = initial_scan"
proof -
  have len: "18 \<le> length (splitCsvLine (sample_row ''0x01'' ''2029-12-30 10:04''))"
    by (simp add: sample_split)
  have e: "splitCsvLine '',,,,,,,,,,,,,,,,,'' = replicate 18 []"
    by (simp add: splitCsvLine_def eval_nat_numeral)
  have len2: "18 \<le> length (splitCsvLine '',,,,,,,,,,,,,,,,,'')"
    by (simp add: e)
  have nq: "\<not> qualifies (splitCsvLine '',,,,,,,,,,,,,,,,,'')"
    by (simp add: e qualifies_def through_router_def)
  have b: "bucket initial_scan ''2029-12-30'' = \<lparr> totalUsd = Num 0, totalCngn = Num 0 \<rparr>"
    by (simp add: bucket_def initial_scan_def)
  let ?parts = "splitCsvLine (sample_row ''0x01'' ''2029-12-30 10:04'')"
  from trade_qualification [OF len, of initial_scan] sample_qualifies(1)
  have "dailyStats (on_line initial_scan (sample_row ''0x01'' ''2029-12-30 10:04''))
          (parseDate (?parts ! 2))
       = Some \<lparr> totalUsd = js_add (totalUsd (bucket initial_scan (parseDate (?parts ! 2))))
                                (parseFloat (?parts ! 15)),
                  totalCngn = js_add (totalCngn (bucket initial_scan (parseDate (?parts ! 2))))
                                 (parseFloat (?parts ! 14)) \<rparr>"
    by blast
  moreover have "parseDate (?parts ! 2) = ''2029-12-30''" "parseFloat (?parts ! 15) = Num 7"
    "parseFloat (?parts ! 14) = Num 100"
    by (simp_all add: sample_split sample_dates sample_parse)
  ultimately
  have "dailyStats (on_line initial_scan (sample_row ''0x01'' ''2029-12-30 10:04'')) ''2029-12-30''
       = Some \<lparr> totalUsd = Num 7, totalCngn = Num 100 \<rparr>"
    by (simp add: b)
  moreover from trade_qualification [OF len2, of initial_scan] nq
  have "on_line initial_scan '',,,,,,,,,,,,,,,,,'' = initial_scan"
    by blast
  ultimately show ?thesis
    using len len2 nq sample_qualifies(1) by blast
qed

text \<open>
  Claim C5. In the generated series, the record of a day without volume (no bucket, or a
  token total that is not positive) has zero for both volumes, and its price is the
  price of the latest earlier day of the series that had volume; when no earlier day had
  volume the price is 0.
\<close>

theorem carry_forward:
  assumes "generate_series st = Some out" and "Date_parse (minDate st) = Some cur"
    and "i < length out" and "\<not> has_volume (dailyStats st) (cur + int i)"
  shows "date (out ! i) = toISODate (cur + int i)
       \<and> volumeCngn (out ! i) = Num 0 \<and> volumeUsd (out ! i) = Num 0
       \<and> ((\<exists>j<i. has_volume (dailyStats st) (cur + int j)
              \<and> (\<forall>k. j < k \<and> k < i \<longrightarrow> \<not> has_volume (dailyStats st) (cur + int k))
              \<and> vwap (out ! i) = day_price (dailyStats st) (cur + int j))
           \<or> ((\<forall>k<i. \<not> has_volume (dailyStats st) (cur + int k)) \<and> vwap (out ! i) = Num 0))"
proof -
  from assms(1,2,3) obtain e where e: "Date_parse (maxDate st) = Some e"
    and out: "out = series_loop (dailyStats st) cur e (Num 0)"
    by (cases "Date_parse (maxDate st)") (auto simp: generate_series_def split: if_splits)
  from assms(3) have nth: "out ! i = fst (day_record (dailyStats st) (cur + int i)
                                      (last_before (dailyStats st) cur (Num 0) i))"
    unfolding out by (rule series_loop_nth)
  from day_record_fst(3) [OF assms(4)] day_record_fst(1)
  have r: "date (out ! i) = toISODate (cur + int i)"
    "volumeCngn (out ! i) = Num 0" "volumeUsd (out ! i) = Num 0"
    "vwap (out ! i) = last_before (dailyStats st) cur (Num 0) i"
    unfolding nth by auto
  from last_before_cases [of i "dailyStats st" cur "Num 0"] r show ?thesis
    by auto
qed

lemma sample_scan:
  "dailyStats (scan_ledger sample_ledger) ''2029-12-30''
     = Some \<lparr> totalUsd = Num 7, totalCngn = Num 100 \<rparr>"
  "dailyStats (scan_ledger sample_ledger) ''2029-12-31'' = None"
  "minDate (scan_ledger sample_ledger) = ''2029-12-30''"
  "maxDate (scan_ledger sample_ledger) = ''2030-01-02''"
proof -
  have s: "scan_ledger sample_ledger
     = add_trade (add_trade initial_scan ''2029-12-30'' (Num 100) (Num 7))
         ''2030-01-02'' (Num 100) (Num 7)"
    by (simp add: scan_ledger_def sample_ledger_def on_line_cases sample_qualifies)
       (simp add: sample_split sample_dates sample_parse)
  show "dailyStats (scan_ledger sample_ledger) ''2029-12-30''
     = Some \<lparr> totalUsd = Num 7, totalCngn = Num 100 \<rparr>"
    "dailyStats (scan_ledger sample_ledger) ''2029-12-31'' = None"
    "minDate (scan_ledger sample_ledger) = ''2029-12-30''"
    "maxDate (scan_ledger sample_ledger) = ''2030-01-02''"
    unfolding s by (simp_all add: add_trade_def initial_scan_def Let_def)
qed

lemma sample_series:
  "generate_series (scan_ledger sample_ledger)
     = Some [\<lparr> date = ''2029-12-30'', vwap = Num (7 / 100), volumeCngn = Num 100,
               volumeUsd = Num 7 \<rparr>,
             \<lparr> date = ''2029-12-31'', vwap = Num (7 / 100), volumeCngn = Num 0,
               volumeUsd = Num 0 \<rparr>]"
proof -
  have r0: "day_record (dailyStats (scan_ledger sample_ledger)) 21913 (Num 0)
     = (\<lparr> date = ''2029-12-30'', vwap = Num (7 / 100), volumeCngn = Num 100,
          volumeUsd = Num 7 \<rparr>, Num (7 / 100))"
    by (simp add: day_record_def sample_iso sample_scan js_greater_def)
  have r1: "day_record (dailyStats (scan_ledger sample_ledger)) 21914 (Num (7 / 100))
     = (\<lparr> date = ''2029-12-31'', vwap = Num (7 / 100), volumeCngn = Num 0,
          volumeUsd = Num 0 \<rparr>, Num (7 / 100))"
    by (simp add: day_record_def sample_iso sample_scan)
  have "series_loop (dailyStats (scan_ledger sample_ledger)) 21913 21916 (Num 0)
     = [fst (day_record (dailyStats (scan_ledger sample_ledger)) 21913 (Num 0)),
        fst (day_record (dailyStats (scan_ledger sample_ledger)) 21914 (Num (7 / 100)))]"
    using series_loop_unfold [of 21913 21916 "dailyStats (scan_ledger sample_ledger)" "Num 0"]
      series_loop_unfold [of 21914 21916 "dailyStats (scan_ledger sample_ledger)" "Num (7 / 100)"]
      series_loop_stop [of 21915 21916 "dailyStats (scan_ledger sample_ledger)" "Num (7 / 100)"]
    by (simp add: SAFETY_YEAR_LIMIT_value r0 r1)
  then show ?thesis
    by (simp add: generate_series_def sample_scan sample_Date_parse r0 r1)
qed

theorem carry_forward_witness:
  "generate_series (scan_ledger sample_ledger)
     = Some [\<lparr> date = ''2029-12-30'', vwap = Num (7 / 100), volumeCngn = Num 100,
               volumeUsd = Num 7 \<rparr>,
             \<lparr> date = ''2029-12-31'', vwap = Num (7 / 100), volumeCngn = Num 0,
               volumeUsd = Num 0 \<rparr>]
   \<and> Date_parse (minDate (scan_ledger sample_ledger)) = Some 21913
   \<and> \<not> has_volume (dailyStats (scan_ledger sample_ledger)) (21913 + int 1)
   \<and> has_volume (dailyStats (scan_ledger sample_ledger)) (21913 + int 0)
   \<and> day_price (dailyStats (scan_ledger sample_ledger)) (21913 + int 0) = Num (7 / 100)"
proof -
  let ?out = "[\<lparr> date = ''2029-12-30'', vwap = Num (7 / 100), volumeCngn = Num 100,
               volumeUsd = Num 7 \<rparr>,
             \<lparr> date = ''2029-12-31'', vwap = Num (7 / 100), volumeCngn = Num 0,
               volumeUsd = Num 0 \<rparr>]"
  have p: "Date_parse (minDate (scan_ledger sample_ledger)) = Some 21913"
    by (simp add: sample_scan sample_Date_parse)
  have nv: "\<not> has_volume (dailyStats (scan_ledger sample_ledger)) (21913 + int 1)"
    by (simp add: has_volume_def sample_iso sample_scan)
  have hv: "has_volume (dailyStats (scan_ledger sample_ledger)) (21913 + int 0)"
    by (simp add: has_volume_def sample_iso sample_scan js_greater_def)
  have dp: "day_price (dailyStats (scan_ledger sample_ledger)) (21913 + int 0) = Num (7 / 100)"
    by (simp add: day_price_def sample_iso sample_scan)
  have l: "1 < length ?out" by simp
  from carry_forward [OF sample_series p l nv] sample_series p nv hv dp
  show ?thesis by blast
qed

text \<open>
  Claim C2, as the code has it. When every qualifying row has a date key and the least
  and the greatest key (compared as strings) are dates, the series has exactly one
  record for each day from the least date up to the greatest date or to 2029-12-31,
  whichever is earlier, in increasing order of days: the walk stops before 2030-01-01.
  When the greatest date is before 2030-01-01 the series covers every day of the range.
\<close>

theorem vwap_series_dates:
  assumes "trade_dates lines \<noteq> []" and "[] \<notin> set (trade_dates lines)"
    and "Date_parse (Min (set (trade_dates lines))) = Some a"
    and "Date_parse (Max (set (trade_dates lines))) = Some b"
  shows "\<exists>out. calculateVWAP lines = Some out
           \<and> map date out = map toISODate [a .. min b (days_from_civil 2030 1 1 - 1)]
           \<and> (b < days_from_civil 2030 1 1 \<longrightarrow> map date out = map toISODate [a .. b])"
proof -
  from vwap_dates [OF assms] obtain out where out: "calculateVWAP lines = Some out"
    "map date out = map toISODate [a .. min b (SAFETY_YEAR_LIMIT - 1)]"
    by blast
  have "min b (SAFETY_YEAR_LIMIT - 1) = b" if "b < days_from_civil 2030 1 1"
    using that by (simp add: SAFETY_YEAR_LIMIT_def)
  with out show ?thesis
    by (auto simp: SAFETY_YEAR_LIMIT_def)
qed

theorem vwap_series_dates_witness:
  "trade_dates sample_ledger_august \<noteq> [] \<and> [] \<notin> set (trade_dates sample_ledger_august)
   \<and> Date_parse (Min (set (trade_dates sample_ledger_august))) = Some 20305
   \<and> Date_parse (Max (set (trade_dates sample_ledger_august))) = Some 20307
   \<and> (\<exists>out. calculateVWAP sample_ledger_august = Some out
          \<and> map date out = [''2025-08-05'', ''2025-08-06'', ''2025-08-07''])"
proof -
  have h1: "trade_dates sample_ledger_august \<noteq> []"
    and h2: "[] \<notin> set (trade_dates sample_ledger_august)"
    by (simp_all add: august_trade_dates)
  have h3: "Date_parse (Min (set (trade_dates sample_ledger_august))) = Some 20305"
    and h4: "Date_parse (Max (set (trade_dates sample_ledger_august))) = Some 20307"
    by (simp_all only: august_trade_dates august_min_max august_Date_parse)
  have lim: "(20307::int) < days_from_civil 2030 1 1"
    by (simp add: days_from_civil_def)
  from vwap_series_dates [OF h1 h2 h3 h4] lim
  obtain out where "calculateVWAP sample_ledger_august = Some out"
    "map date out = map toISODate [20305 .. 20307]"
    by blast
  then have "\<exists>out. calculateVWAP sample_ledger_august = Some out
          \<and> map date out = [''2025-08-05'', ''2025-08-06'', ''2025-08-07'']"
    by (simp add: upto_august august_iso)
  with h1 h2 h3 h4 show ?thesis by blast
qed

text \<open>
  Claim C2, as stated, fails: with qualifying trades on 2029-12-30 and 2030-01-02 the
  series ends at 2029-12-31, and the dates 2030-01-01 and 2030-01-02 are missing.
\<close>

theorem vwap_series_dates_counterexample:
  "trade_dates sample_ledger = [''2029-12-30'', ''2030-01-02'']
   \<and> map_option (map date) (calculateVWAP sample_ledger)
       = Some [''2029-12-30'', ''2029-12-31'']"
  by (simp add: sample_trade_dates calculateVWAP_def sample_series)

section \<open>The pipeline run: deduplication and the ledger\<close>

lemma collect_items_new_hashes:
  "\<exists>new. snd (collect_items seen batch its) = batch @ new
         \<and> fst (collect_items seen batch its) = seen \<union> set new
         \<and> distinct new \<and> set new \<inter> seen = {}
         \<and> (\<forall>h \<in> set new. Some h \<in> set its)"
proof (induction its arbitrary: seen batch)
  case Nil
  then show ?case by simp
next
  case (Cons it its)
  show ?case
  proof (cases "\<exists>h. it = Some h \<and> h \<noteq> [] \<and> h \<notin> seen")
    case True
    then obtain h where h: "it = Some h" "h \<noteq> []" "h \<notin> seen" by blast
    from Cons.IH [of "insert h seen" "batch @ [h]"]
    obtain new where new: "snd (collect_items (insert h seen) (batch @ [h]) its) = (batch @ [h]) @ new"
      "fst (collect_items (insert h seen) (batch @ [h]) its) = insert h seen \<union> set new"
      "distinct new" "set new \<inter> insert h seen = {}" "\<forall>x \<in> set new. Some x \<in> set its"
      by blast
    have "snd (collect_items seen batch (it # its)) = batch @ (h # new)"
      "fst (collect_items seen batch (it # its)) = seen \<union> set (h # new)"
      "distinct (h # new)" "set (h # new) \<inter> seen = {}"
      "\<forall>x \<in> set (h # new). Some x \<in> set (it # its)"
      using h new by auto
    then show ?thesis by blast
  next
    case False
    then have "collect_items seen batch (it # its) = collect_items seen batch its"
      by (cases it) auto
    with Cons.IH [of seen batch] show ?thesis by auto
  qed
qed

lemma collect_batch_new_hashes:
  "\<exists>new. fst (snd (collect_batch seen batch npp pages)) = batch @ new
         \<and> fst (collect_batch seen batch npp pages) = seen \<union> set new
         \<and> distinct new \<and> set new \<inter> seen = {}
         \<and> (\<forall>h \<in> set new. \<exists>p \<in> set pages. Some h \<in> set (page_items p))"
proof (induction pages arbitrary: seen batch npp)
  case Nil
  have "fst (snd (collect_batch seen batch npp [])) = batch @ []" by simp
  then show ?case by fastforce
next
  case (Cons p pages)
  from collect_items_new_hashes [of seen batch "page_items p"]
  obtain new1 where n1: "snd (collect_items seen batch (page_items p)) = batch @ new1"
    "fst (collect_items seen batch (page_items p)) = seen \<union> set new1"
    "distinct new1" "set new1 \<inter> seen = {}" "\<forall>h \<in> set new1. Some h \<in> set (page_items p)"
    by blast
  then have ci: "collect_items seen batch (page_items p) = (seen \<union> set new1, batch @ new1)"
    by (metis prod.collapse)
  show ?case
  proof (cases "length batch < PROCESS_BATCH_SIZE \<and> page_items p \<noteq> []")
    case False
    then have "fst (snd (collect_batch seen batch npp (p # pages))) = batch @ []"
      "fst (collect_batch seen batch npp (p # pages)) = seen \<union> set []"
      by auto
    then show ?thesis by fastforce
  next
    case True
    show ?thesis
    proof (cases "page_next p")
      case None
      with True have "fst (snd (collect_batch seen batch npp (p # pages))) = batch @ new1"
        "fst (collect_batch seen batch npp (p # pages)) = seen \<union> set new1"
        by (simp_all add: ci)
      with n1 show ?thesis by fastforce
    next
      case (Some params)
      from Cons.IH [of "seen \<union> set new1" "batch @ new1" "Some params"]
      obtain new2 where n2:
        "fst (snd (collect_batch (seen \<union> set new1) (batch @ new1) (Some params) pages))
           = (batch @ new1) @ new2"
        "fst (collect_batch (seen \<union> set new1) (batch @ new1) (Some params) pages)
           = (seen \<union> set new1) \<union> set new2"
        "distinct new2" "set new2 \<inter> (seen \<union> set new1) = {}"
        "\<forall>h \<in> set new2. \<exists>p \<in> set pages. Some h \<in> set (page_items p)"
        by blast
      from True Some have "fst (snd (collect_batch seen batch npp (p # pages))) = batch @ (new1 @ new2)"
        "fst (collect_batch seen batch npp (p # pages)) = seen \<union> set (new1 @ new2)"
        by (simp_all add: ci n2 Un_assoc)
      moreover have "distinct (new1 @ new2)" "set (new1 @ new2) \<inter> seen = {}"
        "\<forall>h \<in> set (new1 @ new2). \<exists>q \<in> set (p # pages). Some h \<in> set (page_items q)"
        using n1 n2 by auto
      ultimately show ?thesis by blast
    qed
  qed
qed

lemma retry_loop_Some:
  "fst (retry_loop retries attempt rnd k) = Some v \<Longrightarrow> \<exists>j. attempt j = Returned v"
proof (induction retries arbitrary: k)
  case 0
  then show ?case by simp
next
  case (Suc retries)
  show ?case
  proof (cases "attempt k")
    case (Returned w)
    with Suc.prems show ?thesis by auto
  next
    case (Threw m)
    with Suc.prems have "fst (retry_loop retries attempt rnd (Suc k)) = Some v"
      by (auto simp: split_beta split: if_splits)
    then show ?thesis by (rule Suc.IH)
  qed
qed

lemma chunks_concat: "concat (chunks xs) = xs"
proof (induction xs rule: chunks.induct)
  case (1 xs)
  show ?case
  proof (cases "xs = []")
    case True
    then show ?thesis by (subst chunks.simps) simp
  next
    case False
    with 1 show ?thesis by (subst chunks.simps) simp
  qed
qed

lemma process_with_retry_Some:
  "fst (process_with_retry attempt rnd) = Some v \<Longrightarrow> \<exists>j. attempt j = Returned v"
  unfolding process_with_retry_def by (rule retry_loop_Some)

lemma process_chunk_hashes:
  assumes "hash_tagged hash_of attempt"
  shows "set (map hash_of (process_chunk attempt rnd chunk)) \<subseteq> set chunk"
proof (induction chunk)
  case Nil
  then show ?case by (simp add: process_chunk_def)
next
  case (Cons h chunk)
  show ?case
  proof (cases "fst (process_with_retry (attempt h) (rnd h))")
    case None
    with Cons show ?thesis by (auto simp: process_chunk_def)
  next
    case (Some rows)
    from process_with_retry_Some [OF Some] assms have "\<forall>r \<in> set rows. hash_of r = h"
      unfolding hash_tagged_def by blast
    with Cons Some show ?thesis by (auto simp: process_chunk_def)
  qed
qed

lemma process_chunk_distinct:
  assumes "hash_tagged hash_of attempt" "single_row attempt" "distinct chunk"
  shows "distinct (map hash_of (process_chunk attempt rnd chunk))"
  using assms(3)
proof (induction chunk)
  case Nil
  then show ?case by (simp add: process_chunk_def)
next
  case (Cons h chunk)
  then have d: "distinct (map hash_of (process_chunk attempt rnd chunk))" and nh: "h \<notin> set chunk"
    by auto
  from process_chunk_hashes [OF assms(1), of rnd chunk] nh
  have fresh: "h \<notin> set (map hash_of (process_chunk attempt rnd chunk))" by blast
  show ?case
  proof (cases "fst (process_with_retry (attempt h) (rnd h))")
    case None
    with d show ?thesis by (simp add: process_chunk_def)
  next
    case (Some rows)
    from process_with_retry_Some [OF Some] assms(1,2)
    have t: "\<forall>r \<in> set rows. hash_of r = h" and s: "length rows \<le> 1"
      unfolding hash_tagged_def single_row_def by blast+
    from s have "rows = [] \<or> (\<exists>r. rows = [r])"
      by (cases rows) auto
    then have "distinct (map hash_of rows)" by auto
    moreover have "process_chunk attempt rnd (h # chunk) = rows @ process_chunk attempt rnd chunk"
      using Some by (simp add: process_chunk_def)
    ultimately show ?thesis
      using d fresh t by auto
  qed
qed

lemma lines_loop_one_line:
  "one_line s \<Longrightarrow> lines_loop cur (s @ CHR 0x0A # rest) = (cur @ s) # lines_loop [] rest"
  by (induction s arbitrary: cur) (auto simp: one_line_def)

lemma readline_lines_join:
  assumes "\<forall>l \<in> set ls. one_line l" "ls \<noteq> []"
  shows "readline_lines (join [CHR 0x0A] ls @ [CHR 0x0A]) = ls"
  using assms
proof (induction ls)
  case Nil
  then show ?case by simp
next
  case (Cons p ps)
  then have p: "one_line p" by simp
  show ?case
  proof (cases ps)
    case Nil
    then show ?thesis
      using lines_loop_one_line [OF p, of "[]" "[]"] by (simp add: readline_lines_def)
  next
    case (Cons q qs)
    with Cons.prems Cons.IH have ih: "lines_loop [] (join [CHR 0x0A] ps @ [CHR 0x0A]) = ps"
      by (simp add: readline_lines_def)
    have "join [CHR 0x0A] (p # ps) @ [CHR 0x0A] = p @ CHR 0x0A # (join [CHR 0x0A] ps @ [CHR 0x0A])"
      using Cons by simp
    then show ?thesis
      using lines_loop_one_line [OF p, of "[]" "join [CHR 0x0A] ps @ [CHR 0x0A]"] ih
      by (simp add: readline_lines_def)
  qed
qed

lemma save_chunk_fields:
  "seenHashes (save_chunk columns st rows) = seenHashes st"
  "nextPageParams (save_chunk columns st rows) = nextPageParams st"
  "appended (save_chunk columns st rows) = appended st @ rows"
  "recordsSaved (save_chunk columns st rows) = recordsSaved st + length rows"
  "\<exists>ls. ledger (save_chunk columns st rows) = ledger st @ ls"
  "(\<forall>r \<in> set rows. one_line (csv_line (columns r))) \<Longrightarrow>
     ledger (save_chunk columns st rows) = ledger st @ map (\<lambda>r. csv_line (columns r)) rows"
proof -
  show "seenHashes (save_chunk columns st rows) = seenHashes st"
    "nextPageParams (save_chunk columns st rows) = nextPageParams st"
    "appended (save_chunk columns st rows) = appended st @ rows"
    "recordsSaved (save_chunk columns st rows) = recordsSaved st + length rows"
    "\<exists>ls. ledger (save_chunk columns st rows) = ledger st @ ls"
    by (simp_all add: save_chunk_def append_lines_def)
  assume a: "\<forall>r \<in> set rows. one_line (csv_line (columns r))"
  show "ledger (save_chunk columns st rows) = ledger st @ map (\<lambda>r. csv_line (columns r)) rows"
  proof (cases "rows = []")
    case True
    then show ?thesis by (simp add: save_chunk_def)
  next
    case False
    then have "readline_lines (join [CHR 0x0A] (map (\<lambda>r. csv_line (columns r)) rows) @ [CHR 0x0A])
                 = map (\<lambda>r. csv_line (columns r)) rows"
      using a by (intro readline_lines_join) auto
    with False show ?thesis by (simp add: save_chunk_def append_lines_def)
  qed
qed

lemma process_batch_fields:
  fixes st :: "('p, 'r) run"
  shows "seenHashes (process_batch attempt rnd columns st batch) = seenHashes st"
    and "nextPageParams (process_batch attempt rnd columns st batch) = nextPageParams st"
    and "appended (process_batch attempt rnd columns st batch)
           = appended st @ concat (map (process_chunk attempt rnd) (chunks batch))"
    and "\<exists>ls. ledger (process_batch attempt rnd columns st batch) = ledger st @ ls"
    and "(\<forall>r \<in> set (concat (map (process_chunk attempt rnd) (chunks batch))).
             one_line (csv_line (columns r))) \<Longrightarrow>
           ledger (process_batch attempt rnd columns st batch)
             = ledger st @ map (\<lambda>r. csv_line (columns r))
                 (concat (map (process_chunk attempt rnd) (chunks batch)))"
proof -
  have g: "seenHashes (foldl (\<lambda>s chunk. save_chunk columns s (process_chunk attempt rnd chunk)) s0 cs)
             = seenHashes s0
         \<and> nextPageParams (foldl (\<lambda>s chunk. save_chunk columns s (process_chunk attempt rnd chunk)) s0 cs)
             = nextPageParams s0
         \<and> appended (foldl (\<lambda>s chunk. save_chunk columns s (process_chunk attempt rnd chunk)) s0 cs)
             = appended s0 @ concat (map (process_chunk attempt rnd) cs)
         \<and> (\<exists>ls. ledger (foldl (\<lambda>s chunk. save_chunk columns s (process_chunk attempt rnd chunk)) s0 cs)
             = ledger s0 @ ls)
         \<and> ((\<forall>r \<in> set (concat (map (process_chunk attempt rnd) cs)).
               one_line (csv_line (columns r))) \<longrightarrow>
             ledger (foldl (\<lambda>s chunk. save_chunk columns s (process_chunk attempt rnd chunk)) s0 cs)
             = ledger s0 @ map (\<lambda>r. csv_line (columns r)) (concat (map (process_chunk attempt rnd) cs)))"
    for s0 :: "('p, 'r) run" and cs
  proof (induction cs arbitrary: s0)
    case Nil
    then show ?case by simp
  next
    case (Cons c cs)
    let ?s1 = "save_chunk columns s0 (process_chunk attempt rnd c)"
    from save_chunk_fields(5) [of columns s0 "process_chunk attempt rnd c"]
    obtain l1 where l1: "ledger ?s1 = ledger s0 @ l1" by blast
    have l6: "(\<forall>r \<in> set (process_chunk attempt rnd c). one_line (csv_line (columns r))) \<longrightarrow>
        ledger ?s1 = ledger s0 @ map (\<lambda>r. csv_line (columns r)) (process_chunk attempt rnd c)"
      using save_chunk_fields(6) [where columns = columns and st = s0
          and rows = "process_chunk attempt rnd c"] by blast
    have f: "seenHashes ?s1 = seenHashes s0" "nextPageParams ?s1 = nextPageParams s0"
      "appended ?s1 = appended s0 @ process_chunk attempt rnd c"
      by (simp_all add: save_chunk_fields(1-4))
    from Cons [of ?s1] obtain ls where
      c: "seenHashes (foldl (\<lambda>s chunk. save_chunk columns s (process_chunk attempt rnd chunk)) ?s1 cs)
             = seenHashes ?s1"
         "nextPageParams (foldl (\<lambda>s chunk. save_chunk columns s (process_chunk attempt rnd chunk)) ?s1 cs)
             = nextPageParams ?s1"
         "appended (foldl (\<lambda>s chunk. save_chunk columns s (process_chunk attempt rnd chunk)) ?s1 cs)
             = appended ?s1 @ concat (map (process_chunk attempt rnd) cs)"
         "ledger (foldl (\<lambda>s chunk. save_chunk columns s (process_chunk attempt rnd chunk)) ?s1 cs)
             = ledger ?s1 @ ls"
         "(\<forall>r \<in> set (concat (map (process_chunk attempt rnd) cs)).
               one_line (csv_line (columns r))) \<longrightarrow>
             ledger (foldl (\<lambda>s chunk. save_chunk columns s (process_chunk attempt rnd chunk)) ?s1 cs)
             = ledger ?s1 @ map (\<lambda>r. csv_line (columns r)) (concat (map (process_chunk attempt rnd) cs))"
      by blast
    show ?case
      unfolding foldl_Cons c(1,2,3) f
    proof (intro conjI impI)
      show "\<exists>ls. ledger (foldl (\<lambda>s chunk. save_chunk columns s (process_chunk attempt rnd chunk)) ?s1 cs)
             = ledger s0 @ ls"
        unfolding c(4) l1 by simp
      assume a: "\<forall>r \<in> set (concat (map (process_chunk attempt rnd) (c # cs))).
               one_line (csv_line (columns r))"
      with c(5) l6
      show "ledger (foldl (\<lambda>s chunk. save_chunk columns s (process_chunk attempt rnd chunk)) ?s1 cs)
             = ledger s0 @ map (\<lambda>r. csv_line (columns r))
                 (concat (map (process_chunk attempt rnd) (c # cs)))"
        by simp
    qed simp_all
  qed
  from g [of st "chunks batch"]
  show "seenHashes (process_batch attempt rnd columns st batch) = seenHashes st"
    and "nextPageParams (process_batch attempt rnd columns st batch) = nextPageParams st"
    and "appended (process_batch attempt rnd columns st batch)
           = appended st @ concat (map (process_chunk attempt rnd) (chunks batch))"
    and "\<exists>ls. ledger (process_batch attempt rnd columns st batch) = ledger st @ ls"
    and "(\<forall>r \<in> set (concat (map (process_chunk attempt rnd) (chunks batch))).
             one_line (csv_line (columns r))) \<Longrightarrow>
           ledger (process_batch attempt rnd columns st batch)
             = ledger st @ map (\<lambda>r. csv_line (columns r))
                 (concat (map (process_chunk attempt rnd) (chunks batch)))"
    unfolding process_batch_def by blast+
qed

lemma batch_rows_hashes:
  assumes "hash_tagged hash_of attempt"
  shows "set (map hash_of (concat (map (process_chunk attempt rnd) cs))) \<subseteq> set (concat cs)"
proof (induction cs)
  case Nil
  then show ?case by simp
next
  case (Cons c cs)
  have "set (map hash_of (process_chunk attempt rnd c)) \<subseteq> set c"
    by (rule process_chunk_hashes [OF assms])
  with Cons show ?case by auto
qed

lemma batch_rows_distinct:
  assumes "hash_tagged hash_of attempt" "single_row attempt" "distinct (concat cs)"
  shows "distinct (map hash_of (concat (map (process_chunk attempt rnd) cs)))"
  using assms(3)
proof (induction cs)
  case Nil
  then show ?case by simp
next
  case (Cons c cs)
  then have dc: "distinct c" and dcs: "distinct (concat cs)" and disj: "set c \<inter> set (concat cs) = {}"
    by auto
  have "set (map hash_of (process_chunk attempt rnd c)) \<subseteq> set c"
    by (rule process_chunk_hashes [OF assms(1)])
  moreover have "set (map hash_of (concat (map (process_chunk attempt rnd) cs))) \<subseteq> set (concat cs)"
    by (rule batch_rows_hashes [OF assms(1)])
  ultimately have "set (map hash_of (process_chunk attempt rnd c))
      \<inter> set (map hash_of (concat (map (process_chunk attempt rnd) cs))) = {}"
    using disj by blast
  with Cons.IH [OF dcs] process_chunk_distinct [OF assms(1,2) dc, of rnd]
  show ?case by simp
qed

lemma collect_batch_rest:
  "set (snd (snd (snd (collect_batch seen batch npp pages)))) \<subseteq> set pages"
proof (induction pages arbitrary: seen batch npp)
  case Nil
  then show ?case by simp
next
  case (Cons p pages)
  show ?case
  proof (cases "length batch < PROCESS_BATCH_SIZE \<and> page_items p \<noteq> []")
    case False
    then show ?thesis by auto
  next
    case True
    obtain s b where ci: "collect_items seen batch (page_items p) = (s, b)"
      by (cases "collect_items seen batch (page_items p)")
    show ?thesis
    proof (cases "page_next p")
      case None
      with True show ?thesis by (auto simp: ci)
    next
      case (Some params)
      with True Cons.IH [of s b "Some params"] show ?thesis
        by (auto simp: ci)
    qed
  qed
qed

lemma pipeline_loop_run:
  fixes st :: "('p, 'r) run"
  assumes tagged: "hash_tagged hash_of attempt"
  shows "\<exists>rows.
           appended (pipeline_loop fuel target swe attempt rnd columns st pages) = appended st @ rows
         \<and> set (map hash_of rows) \<inter> seenHashes st = {}
         \<and> (\<forall>h \<in> set (map hash_of rows). \<exists>p \<in> set pages. Some h \<in> set (page_items p))
         \<and> (single_row attempt \<longrightarrow> distinct (map hash_of rows))
         \<and> (\<exists>ls. ledger (pipeline_loop fuel target swe attempt rnd columns st pages) = ledger st @ ls)
         \<and> ((\<forall>r \<in> set rows. one_line (csv_line (columns r))) \<longrightarrow>
              ledger (pipeline_loop fuel target swe attempt rnd columns st pages)
                = ledger st @ map (\<lambda>r. csv_line (columns r)) rows)"
proof (induction fuel arbitrary: st pages)
  case 0
  have "appended (pipeline_loop 0 target swe attempt rnd columns st pages) = appended st @ []"
    by simp
  then show ?case by fastforce
next
  case (Suc fuel)
  define res where "res = pipeline_loop (Suc fuel) target swe attempt rnd columns st pages"
  have trivial: ?case if "res = st"
  proof -
    from that have "appended res = appended st @ []" "ledger res = ledger st @ []" by simp_all
    then show ?thesis unfolding res_def by fastforce
  qed
  show ?case
  proof (cases "recordsSaved st < target")
    case False
    then have "res = st" by (simp add: res_def)
    then show ?thesis by (rule trivial)
  next
    case True
    obtain seen' batch params' pages' where
      cb: "collect_batch (seenHashes st) [] (nextPageParams st) pages = (seen', batch, params', pages')"
      by (cases "collect_batch (seenHashes st) [] (nextPageParams st) pages") auto
    from collect_batch_new_hashes [of "seenHashes st" "[]" "nextPageParams st" pages]
    have batch: "seen' = seenHashes st \<union> set batch" "distinct batch"
      "set batch \<inter> seenHashes st = {}"
      "\<forall>h \<in> set batch. \<exists>p \<in> set pages. Some h \<in> set (page_items p)"
      by (auto simp: cb)
    from collect_batch_rest [of "seenHashes st" "[]" "nextPageParams st" pages]
    have rest: "set pages' \<subseteq> set pages" by (simp add: cb)
    define st1 where "st1 = st \<lparr> seenHashes := seen', nextPageParams := params' \<rparr>"
    define st2 where "st2 = process_batch attempt rnd columns st1 batch"
    define rows1 where "rows1 = concat (map (process_chunk attempt rnd) (chunks batch))"
    have st1: "appended st1 = appended st" "ledger st1 = ledger st" "seenHashes st1 = seen'"
      by (simp_all add: st1_def)
    have st2: "seenHashes st2 = seen'" "appended st2 = appended st @ rows1"
      "\<exists>ls. ledger st2 = ledger st @ ls"
      "(\<forall>r \<in> set rows1. one_line (csv_line (columns r))) \<longrightarrow>
           ledger st2 = ledger st @ map (\<lambda>r. csv_line (columns r)) rows1"
      using process_batch_fields [where attempt = attempt and rnd = rnd and columns = columns
          and st = st1 and batch = batch]
      by (simp_all add: st2_def rows1_def st1)
    have h1: "set (map hash_of rows1) \<subseteq> set batch"
      using batch_rows_hashes [OF tagged, of rnd "chunks batch"]
      by (simp add: rows1_def chunks_concat)
    have d1: "single_row attempt \<longrightarrow> distinct (map hash_of rows1)"
      using batch_rows_distinct [OF tagged, of "chunks batch" rnd] batch(2)
      by (simp add: rows1_def chunks_concat)
    have stop2: ?thesis if "res = st2"
    proof -
      have "appended res = appended st @ rows1" using that st2 by simp
      moreover have "set (map hash_of rows1) \<inter> seenHashes st = {}"
        using h1 batch(3) by blast
      moreover have "\<forall>h \<in> set (map hash_of rows1). \<exists>p \<in> set pages. Some h \<in> set (page_items p)"
        using h1 batch(4) by blast
      moreover have "\<exists>ls. ledger res = ledger st @ ls" using that st2(3) by simp
      moreover have "(\<forall>r \<in> set rows1. one_line (csv_line (columns r))) \<longrightarrow>
           ledger res = ledger st @ map (\<lambda>r. csv_line (columns r)) rows1"
        using that st2(4) by simp
      ultimately show ?thesis using d1 unfolding res_def by blast
    qed
    show ?thesis
    proof (cases "swe \<and> length batch = 0")
      case True
      with \<open>recordsSaved st < target\<close> have "res = st1"
        by (simp add: res_def cb st1_def)
      then have "appended res = appended st @ []" "ledger res = ledger st @ []"
        by (simp_all add: st1)
      then show ?thesis unfolding res_def by fastforce
    next
      case False
      show ?thesis
      proof (cases "recordsSaved st2 \<ge> target
                    \<or> (nextPageParams st2 = None \<and> length batch < PROCESS_BATCH_SIZE)")
        case True
        with False \<open>recordsSaved st < target\<close> have "res = st2"
          by (auto simp: res_def cb st1_def st2_def Let_def)
        then show ?thesis by (rule stop2)
      next
        case cont: False
        with False \<open>recordsSaved st < target\<close>
        have res: "res = pipeline_loop fuel target swe attempt rnd columns st2 pages'"
          by (auto simp: res_def cb st1_def st2_def Let_def)
        from Suc.IH [of st2 pages'] obtain rows2 where r2:
          "appended res = appended st2 @ rows2"
          "set (map hash_of rows2) \<inter> seenHashes st2 = {}"
          "\<forall>h \<in> set (map hash_of rows2). \<exists>p \<in> set pages'. Some h \<in> set (page_items p)"
          "single_row attempt \<longrightarrow> distinct (map hash_of rows2)"
          "\<exists>ls. ledger res = ledger st2 @ ls"
          "(\<forall>r \<in> set rows2. one_line (csv_line (columns r))) \<longrightarrow>
              ledger res = ledger st2 @ map (\<lambda>r. csv_line (columns r)) rows2"
          unfolding res by blast
        have a: "appended res = appended st @ (rows1 @ rows2)"
          using r2(1) st2(2) by simp
        have b: "set (map hash_of (rows1 @ rows2)) \<inter> seenHashes st = {}"
          using h1 batch(1,3) r2(2) st2(1) by auto
        have c: "\<forall>h \<in> set (map hash_of (rows1 @ rows2)). \<exists>p \<in> set pages. Some h \<in> set (page_items p)"
        proof
          fix h assume "h \<in> set (map hash_of (rows1 @ rows2))"
          then consider "h \<in> set (map hash_of rows1)" | "h \<in> set (map hash_of rows2)"
            by auto
          then show "\<exists>p \<in> set pages. Some h \<in> set (page_items p)"
          proof cases
            case 1
            with h1 batch(4) show ?thesis by blast
          next
            case 2
            with r2(3) rest show ?thesis by blast
          qed
        qed
        have d: "single_row attempt \<longrightarrow> distinct (map hash_of (rows1 @ rows2))"
          using d1 r2(4) h1 r2(2) st2(1) batch(1) by auto
        have e: "\<exists>ls. ledger res = ledger st @ ls"
          using r2(5) st2(3) by auto
        have f: "(\<forall>r \<in> set (rows1 @ rows2). one_line (csv_line (columns r))) \<longrightarrow>
              ledger res = ledger st @ map (\<lambda>r. csv_line (columns r)) (rows1 @ rows2)"
          using r2(6) st2(4) by auto
        from a b c d e f show ?thesis unfolding res_def by blast
      qed
    qed
  qed
qed

lemma escapeCsv_plain: "plain_hash h \<Longrightarrow> escapeCsv (Some h) = h"
  by (simp add: escapeCsv_def plain_hash_def)

lemma csv_line_hash:
  "csv_line (Some h # rest) = escapeCsv (Some h) @ (if rest = [] then [] else CHR '','' # csv_line rest)"
  by (cases rest) (simp_all add: csv_line_def)

lemma strip_quotes_plain:
  assumes "plain_hash h" shows "strip_quotes h = h"
proof -
  from assms have q: "CHR 0x22 \<notin> set h" and ne: "h \<noteq> []"
    by (auto simp: plain_hash_def startsWith_def)
  from ne q have "hd h \<noteq> CHR 0x22" "last h \<noteq> CHR 0x22"
    by (metis hd_in_set, metis last_in_set)
  with ne show ?thesis
    by (cases h) (auto simp: strip_quotes_def)
qed

lemma row_indexed:
  assumes "plain_hash h"
  shows "line_hash (csv_line (Some h # rest)) = Some h"
proof -
  from assms have c: "CHR '','' \<notin> set h" and ne: "h \<noteq> []" and p: "startsWith h ''0x''"
    by (auto simp: plain_hash_def startsWith_def)
  have tw: "takeWhile (\<lambda>x. x \<noteq> CHR '','') (h @ t) = h @ takeWhile (\<lambda>x. x \<noteq> CHR '','') t" for t
    using c by (intro takeWhile_append2) auto
  have "takeWhile (\<lambda>x. x \<noteq> CHR '','') (h @ (if rest = [] then [] else CHR '','' # csv_line rest)) = h"
    by (simp add: tw)
  then have "hd (split_on CHR '','' (csv_line (Some h # rest))) = h"
    by (simp add: split_on_hd csv_line_hash escapeCsv_plain [OF assms])
  then show ?thesis
    using p by (simp add: line_hash_Some strip_quotes_plain [OF assms])
qed



lemma processSingleTransaction_rows:
  "processSingleTransaction hash d = Inr rows \<Longrightarrow>
     length rows \<le> 1 \<and> (\<forall>r \<in> set rows. row_transaction_hash r = hash)"
  by (auto simp: processSingleTransaction_def Let_def split: option.splits if_splits sum.splits)

lemma attempt_ledger_tagged:
  "hash_tagged row_transaction_hash (attempt_ledger message details)"
  "single_row (attempt_ledger message details)"
  unfolding hash_tagged_def single_row_def
  using processSingleTransaction_rows
  by (auto simp: attempt_ledger_def split: sum.splits)

lemma pipelineBatch_run:
  assumes "hash_tagged hash_of attempt"
  shows "\<exists>rows.
           appended (pipelineBatch fuel target swe headers attempt rnd columns ledger_file pages) = rows
         \<and> set (map hash_of rows) \<inter> loadExistingHashes (initial_file headers ledger_file) = {}
         \<and> (\<forall>h \<in> set (map hash_of rows). \<exists>p \<in> set pages. Some h \<in> set (page_items p))
         \<and> (single_row attempt \<longrightarrow> distinct (map hash_of rows))
         \<and> (\<exists>ls. ledger (pipelineBatch fuel target swe headers attempt rnd columns ledger_file pages)
                    = initial_file headers ledger_file @ ls)
         \<and> ((\<forall>r \<in> set rows. one_line (csv_line (columns r))) \<longrightarrow>
              ledger (pipelineBatch fuel target swe headers attempt rnd columns ledger_file pages)
                = initial_file headers ledger_file @ map (\<lambda>r. csv_line (columns r)) rows)"
  using pipeline_loop_run [OF assms(1), of fuel target swe rnd columns
      "\<lparr> seenHashes = loadExistingHashes (initial_file headers ledger_file), nextPageParams = None,
         recordsSaved = card (loadExistingHashes (initial_file headers ledger_file)),
         ledger = initial_file headers ledger_file, appended = [] \<rparr>"
      pages]
  by (simp add: pipelineBatch_def Let_def)





lemma sample_plain:
  "plain_hash ''0x01''" "plain_hash ''0x02''" "\<not> plain_hash ''abc''"
  by (simp_all add: plain_hash_def startsWith_def)


lemma sample_line_hash:
  "line_hash ''0x01'' = Some ''0x01''" "line_hash ''abc'' = None"
  by (simp_all add: line_hash_def strip_quotes_def startsWith_def)



lemma chunks_single: "chunks [h] = [[h]]"
  by (simp add: chunks.simps [of "[h]"] chunks.simps [of "[]"] EXECUTION_CONCURRENCY_def)

lemma collect_sample:
  "h \<noteq> [] \<Longrightarrow> h \<notin> seen \<Longrightarrow>
     collect_batch seen [] (None :: nat option) [sample_page h] = (insert h seen, [h], None, [])"
  by (simp add: sample_page_def PROCESS_BATCH_SIZE_def)

lemma retry_first:
  "attempt 0 = Returned rows \<Longrightarrow> fst (process_with_retry attempt rnd) = Some rows"
  by (simp add: process_with_retry_def numeral_3_eq_3)

lemma run_single:
  fixes attempt :: "string \<Rightarrow> nat \<Rightarrow> 'r list outcome"
  assumes h: "h \<noteq> []" "h \<notin> loadExistingHashes (initial_file headers ledger_file)"
    and small: "card (loadExistingHashes (initial_file headers ledger_file)) < target"
    and rows: "attempt h 0 = Returned rows" "rows \<noteq> []"
  shows "ledger (pipelineBatch (Suc 0) target swe headers attempt rnd columns ledger_file
            [sample_page h])
           = append_lines (initial_file headers ledger_file) (map (\<lambda>r. csv_line (columns r)) rows)"
proof -
  have pc: "process_chunk attempt rnd [h] = rows"
    using retry_first [of "attempt h" rows "rnd h"] rows(1) by (simp add: process_chunk_def)
  show ?thesis
    using h small rows(2)
    by (simp add: pipelineBatch_def Let_def collect_sample process_batch_def chunks_single pc
        save_chunk_def PROCESS_BATCH_SIZE_def del: collect_batch.simps)
qed

lemma read_samples:
  "readline_lines (join [CHR 0x0A] [''0xabc'', ''0xabc''] @ [CHR 0x0A]) = [''0xabc'', ''0xabc'']"
  "readline_lines (join [CHR 0x0A] [''abc''] @ [CHR 0x0A]) = [''abc'']"
  by (simp_all add: readline_lines_def)


text \<open>
  Claim C7, as the code has it. A hash \<open>H\<close> that is plain and has a row in the ledger is
  in the index rebuilt at the start of a run; an upstream item whose hash is in the
  index is skipped by the collection; and no record that the run appends carries \<open>H\<close>.
\<close>

theorem dedup_idempotent:
  assumes "hash_tagged hash_of attempt" and "plain_hash H"
    and "csv_line (Some H # rest) \<in> set (drop 1 existing)"
  shows "H \<in> loadExistingHashes existing
       \<and> (\<forall>r \<in> set (appended (pipelineBatch fuel target swe headers attempt rnd columns
                          (Some existing) responses)). hash_of r \<noteq> H)
       \<and> (H \<in> seen \<and> H \<notin> set batch \<longrightarrow> H \<notin> set (snd (collect_items seen batch its)))"
proof -
  have idx: "H \<in> loadExistingHashes existing"
    using assms(3) row_indexed [OF assms(2), of rest]
    by (auto simp: loadExistingHashes_eq)
  from pipelineBatch_run [OF assms(1), where fuel = fuel and target = target and swe = swe
      and headers = headers and rnd = rnd and columns = columns and ledger_file = "Some existing"
      and pages = responses]
  have "set (map hash_of (appended (pipelineBatch fuel target swe headers attempt rnd columns
                          (Some existing) responses))) \<inter> loadExistingHashes existing = {}"
    by (auto simp: initial_file_def)
  with idx have a: "\<forall>r \<in> set (appended (pipelineBatch fuel target swe headers attempt rnd columns
                          (Some existing) responses)). hash_of r \<noteq> H"
    by auto
  from collect_items_new_hashes [of seen batch its]
  have "H \<in> seen \<and> H \<notin> set batch \<longrightarrow> H \<notin> set (snd (collect_items seen batch its))"
    by auto
  with idx a show ?thesis by blast
qed

theorem dedup_idempotent_witness:
  "hash_tagged row_transaction_hash (attempt_ledger sample_message sample_upstream)
   \<and> plain_hash ''0x01''
   \<and> csv_line (Some ''0x01'' # []) \<in> set (drop 1 [''transaction_hash'', ''0x01''])
   \<and> ''0x01'' \<in> loadExistingHashes [''transaction_hash'', ''0x01'']
   \<and> ''0x01'' \<notin> set (snd (collect_items {''0x01''} [] [Some ''0x01'', Some ''0x02'']))
   \<and> list_all (\<lambda>r. row_transaction_hash r \<noteq> ''0x01'')
        (appended (pipelineBatch (Suc 0) 10 False [''transaction_hash'']
           (attempt_ledger sample_message sample_upstream) sample_rnd hash_column
           (Some [''transaction_hash'', ''0x01'']) [sample_page ''0x01'']))"
proof -
  have l: "csv_line (Some ''0x01'' # []) \<in> set (drop 1 [''transaction_hash'', ''0x01''])"
    by (simp add: csv_line_def escapeCsv_def)
  from dedup_idempotent [OF attempt_ledger_tagged(1) sample_plain(1) l,
      where seen = "{''0x01''}" and batch = "[]" and its = "[Some ''0x01'', Some ''0x02'']"
      and fuel = "Suc 0" and target = 10 and swe = False and headers = "[''transaction_hash'']"
      and rnd = sample_rnd and columns = hash_column and responses = "[sample_page ''0x01'']"
      and message1 = sample_message and details1 = sample_upstream]
    attempt_ledger_tagged(1) [of sample_message sample_upstream] sample_plain(1) l
  show ?thesis
    by (simp add: list_all_iff)
qed

text \<open>
  Claim C7, as stated, fails for a hash that the resume scan does not index: a ledger
  row with the hash \<open>abc\<close> is not read back, the upstream item is collected, and the
  run appends a second row for it.
\<close>

theorem dedup_idempotent_counterexample:
  "ledger (pipelineBatch (Suc 0) 10 False [''transaction_hash'']
      (attempt_ledger sample_message sample_upstream) sample_rnd hash_column
      (Some [''transaction_hash'', ''abc'']) [sample_page ''abc''])
     = [''transaction_hash'', ''abc'', ''abc'']"
proof -
  have t: "token_transfers (sample_details [sample_cngn, sample_usdt]) = [sample_cngn, sample_usdt]"
    by (simp add: sample_details_def)
  from processSingleTransaction_usd [of "sample_details [sample_cngn, sample_usdt]" "''abc''"]
  obtain row where row: "processSingleTransaction ''abc'' (Some (sample_details [sample_cngn, sample_usdt]))
      = Inr [row]" "row_transaction_hash row = ''abc''"
    by (auto simp: t sample_amounts_parse sample_is_cngn)
  have at: "attempt_ledger sample_message sample_upstream ''abc'' 0 = Returned [row]"
    by (simp add: attempt_ledger_def sample_upstream_def row(1))
  have init: "initial_file [''transaction_hash''] (Some [''transaction_hash'', ''abc''])
      = [''transaction_hash'', ''abc'']"
    "loadExistingHashes [''transaction_hash'', ''abc''] = {}"
    by (simp_all add: initial_file_def loadExistingHashes_def sample_line_hash)
  have line: "csv_line (hash_column row) = ''abc''"
    by (simp add: hash_column_def csv_line_def escapeCsv_def row(2))
  from run_single [of "''abc''" "[''transaction_hash'']" "Some [''transaction_hash'', ''abc'']" 10
      "attempt_ledger sample_message sample_upstream" "[row]" False sample_rnd hash_column] at
  show ?thesis
    by (simp add: init line append_lines_def read_samples [simplified])
qed

end
